theory Spec2Isabelle
  imports Main "HOL-Library.Word"
begin

unbundle bit_operations_syntax

section \<open>The machine and the mapped image\<close>

text \<open>
  The model fixes the target on which \<^verbatim>\<open>mkfs.c\<close> is meaningful as written: \<^verbatim>\<open>int\<close>,
  \<^verbatim>\<open>size_t\<close>, \<^verbatim>\<open>ssize_t\<close>, \<^verbatim>\<open>off_t\<close> and pointers are all 32 bits wide and the byte order is
  little-endian. (The program calls \<^verbatim>\<open>basename\<close>, \<^verbatim>\<open>atoi\<close>, \<^verbatim>\<open>ftruncate\<close> and \<^verbatim>\<open>read\<close> without a
  declaration in scope and converts a pointer through \<^verbatim>\<open>uint32_t\<close> in \<^verbatim>\<open>oneFile\<close>; all of
  that is value-preserving exactly when a pointer fits an \<^verbatim>\<open>int\<close>.)

  The three global pointers \<^verbatim>\<open>super\<close>, \<^verbatim>\<open>blocks\<close> and \<^verbatim>\<open>fat\<close> all point into the one
  region returned by \<^verbatim>\<open>mmap\<close>, so the model keeps a single byte-addressed memory and
  addresses are offsets from \<^verbatim>\<open>mapStart\<close>: \<^verbatim>\<open>super\<close> and \<^verbatim>\<open>blocks\<close> are offset 0, \<^verbatim>\<open>fat\<close>
  is offset 512.

  \<^verbatim>\<open>mmap\<close> maps whole pages of 4096 bytes. The bytes between \<^verbatim>\<open>mapLength\<close> and the end of
  the last page can be read and written like the others: they start as zero and are not
  part of the image file, which holds the first \<^verbatim>\<open>mapLength\<close> bytes of the memory when the
  run ends. An access past the last page is undefined behaviour in C (on the target, a
  segmentation fault); the model makes it the error \<open>Fault\<close>.
\<close>

type_synonym byte = "8 word"
type_synonym u32 = "32 word"

datatype error =
    ArgumentError | CreateError | ResizeError | MapError
  | OpenError | ReadError | DiskFull | Fault

record image =
  mem :: "nat \<Rightarrow> byte"
  mapLength :: nat

definition le32 :: "u32 \<Rightarrow> byte list" where
  "le32 w = [ucast w, ucast (drop_bit 8 w), ucast (drop_bit 16 w), ucast (drop_bit 24 w)]"

definition of_le32 :: "byte list \<Rightarrow> u32" where
  "of_le32 bs = ucast (bs ! 0) OR push_bit 8 (ucast (bs ! 1)) OR push_bit 16 (ucast (bs ! 2))
       OR push_bit 24 (ucast (bs ! 3))"

definition write_bytes :: "(nat \<Rightarrow> byte) \<Rightarrow> nat \<Rightarrow> byte list \<Rightarrow> nat \<Rightarrow> byte" where
  "write_bytes m p bs = (\<lambda>a. if p \<le> a \<and> a < p + length bs then bs ! (a - p) else m a)"

definition read_bytes :: "(nat \<Rightarrow> byte) \<Rightarrow> nat \<Rightarrow> nat \<Rightarrow> byte list" where
  "read_bytes m p n = map m [p ..< p + n]"

text \<open>Reading a \<^verbatim>\<open>uint32_t\<close> at an offset, without the bounds check: the observer used
  to state what an image holds.\<close>

definition rd32 :: "image \<Rightarrow> nat \<Rightarrow> u32" where
  "rd32 s p = of_le32 (read_bytes (mem s) p 4)"

definition page_end :: "nat \<Rightarrow> nat" where
  "page_end n = ((n + 4095) div 4096) * 4096"

definition map_end :: "image \<Rightarrow> nat" where
  "map_end s = page_end (mapLength s)"

definition peek32 :: "nat \<Rightarrow> image \<Rightarrow> error + u32" where
  "peek32 p s = (if p + 4 \<le> map_end s then Inr (rd32 s p) else Inl Fault)"

definition poke_bytes :: "nat \<Rightarrow> byte list \<Rightarrow> image \<Rightarrow> error + image" where
  "poke_bytes p bs s =
     (if p + length bs \<le> map_end s then Inr (s\<lparr>mem := write_bytes (mem s) p bs\<rparr>)
      else Inl Fault)"

text \<open>The image file a run leaves: the first \<^verbatim>\<open>mapLength\<close> bytes of the mapped memory.\<close>

definition image_file :: "image \<Rightarrow> byte list" where
  "image_file s = read_bytes (mem s) 0 (mapLength s)"

definition poke32 :: "nat \<Rightarrow> u32 \<Rightarrow> image \<Rightarrow> error + image" where
  "poke32 p w s = poke_bytes p (le32 w) s"

text \<open>The fields of \<^verbatim>\<open>Super\<close> (four bytes of magic, then three \<^verbatim>\<open>uint32_t\<close>) and the
  entries of \<^verbatim>\<open>fat\<close>, as offsets.\<close>

definition super_magic :: nat where "super_magic = 0"
definition super_nBlocks :: nat where "super_nBlocks = 4"
definition super_avail :: nat where "super_avail = 8"
definition super_root :: nat where "super_root = 12"

definition fat_entry :: "u32 \<Rightarrow> nat" where
  "fat_entry i = 512 + 4 * unat i"

section \<open>getBlock and toPtr\<close>

definition getBlock :: "image \<Rightarrow> error + (u32 \<times> image)" where
  "getBlock s =
     (case peek32 super_avail s of Inl e \<Rightarrow> Inl e | Inr idx \<Rightarrow>
        if idx = 0 then Inl DiskFull
        else (case peek32 (fat_entry idx) s of Inl e \<Rightarrow> Inl e | Inr nxt \<Rightarrow>
          (case poke32 super_avail nxt s of Inl e \<Rightarrow> Inl e | Inr s1 \<Rightarrow>
            (case poke32 (fat_entry idx) 0 s1 of Inl e \<Rightarrow> Inl e | Inr s2 \<Rightarrow>
               Inr (idx, s2)))))"

text \<open>\<^verbatim>\<open>blocks + idx * 512 + offset\<close>: the product is computed in \<^verbatim>\<open>uint32_t\<close>.\<close>

definition toPtr :: "u32 \<Rightarrow> u32 \<Rightarrow> nat" where
  "toPtr idx offset = unat (idx * 512) + unat offset"

section \<open>Input files and read\<close>

text \<open>
  An open input file is the bytes not yet delivered together with bounds on the sizes of
  the coming \<^verbatim>\<open>read\<close> calls: \<^verbatim>\<open>read\<close> may return fewer bytes than asked, but at least one
  unless the end of the file is reached. A regular file on a local disk has no bounds.
  A directory can be opened for reading, and every \<^verbatim>\<open>read\<close> on it fails.
\<close>

datatype fd = Stream "byte list" "nat list" | Broken

fun read_fd :: "fd \<Rightarrow> nat \<Rightarrow> (byte list \<times> fd) option" where
  "read_fd Broken count = None"
| "read_fd (Stream bs caps) count =
     (let n = min count (length bs);
          n' = (case caps of [] \<Rightarrow> n | k # _ \<Rightarrow> if n = 0 then 0 else max 1 (min k n))
      in Some (take n' bs, Stream (drop n' bs) (tl caps)))"

fun pending :: "fd \<Rightarrow> nat" where
  "pending Broken = 0"
| "pending (Stream bs caps) = length bs"

datatype node = Regular "byte list" "nat list" | Directory

record world =
  fs :: "string \<Rightarrow> node option"

definition open_rdonly :: "world \<Rightarrow> string \<Rightarrow> fd option" where
  "open_rdonly w name =
     (case fs w name of None \<Rightarrow> None
      | Some (Regular bs caps) \<Rightarrow> Some (Stream bs caps)
      | Some Directory \<Rightarrow> Some Broken)"

section \<open>oneFile\<close>

function oneFile_loop ::
  "fd \<Rightarrow> u32 \<Rightarrow> u32 \<Rightarrow> u32 \<Rightarrow> u32 \<Rightarrow> u32 \<Rightarrow> image \<Rightarrow> error + image" where
  "oneFile_loop f startBlockIndex currentBlockIndex blockOffset leftInBlock totalSize s =
     (case (if leftInBlock = 0
            then (case getBlock s of Inl e \<Rightarrow> Inl e | Inr (b, s1) \<Rightarrow>
                   (case poke32 (fat_entry currentBlockIndex) b s1 of Inl e \<Rightarrow> Inl e
                    | Inr s2 \<Rightarrow> Inr (b, 0, 512, s2)))
            else Inr (currentBlockIndex, blockOffset, leftInBlock, s)) of
        Inl e \<Rightarrow> Inl e
      | Inr (cur, off, left, s') \<Rightarrow>
         (case read_fd f (unat left) of
            None \<Rightarrow> Inl ReadError
          | Some (data, f') \<Rightarrow>
             if data = [] then poke32 (toPtr startBlockIndex 0 + 4) totalSize s'
             else (case poke_bytes (toPtr cur off) data s' of Inl e \<Rightarrow> Inl e
                   | Inr s'' \<Rightarrow>
                      oneFile_loop f' startBlockIndex cur
                        (off + of_nat (length data)) (left - of_nat (length data))
                        (totalSize + of_nat (length data)) s'')))"
  by pat_completeness auto

lemma read_fd_pending:
  "read_fd f c = Some (data, f') \<Longrightarrow> data \<noteq> [] \<Longrightarrow> pending f' < pending f"
  by (cases f) (auto simp add: Let_def split: list.splits if_splits)

termination oneFile_loop
  by (relation "measure (\<lambda>(f, _). pending f)") (auto dest: read_fd_pending)

declare oneFile_loop.simps [simp del]

definition oneFile :: "world \<Rightarrow> string \<Rightarrow> image \<Rightarrow> error + (u32 \<times> image)" where
  "oneFile w fileName s =
     (case open_rdonly w fileName of None \<Rightarrow> Inl OpenError | Some f \<Rightarrow>
       (case getBlock s of Inl e \<Rightarrow> Inl e | Inr (startBlockIndex, s1) \<Rightarrow>
         (case poke32 (toPtr startBlockIndex 0) 1 s1 of Inl e \<Rightarrow> Inl e | Inr s2 \<Rightarrow>
           (case oneFile_loop f startBlockIndex startBlockIndex 8 (512 - 8) 0 s2 of
              Inl e \<Rightarrow> Inl e
            | Inr s3 \<Rightarrow> Inr (startBlockIndex, s3)))))"

section \<open>main\<close>

text \<open>
  Library functions used by \<^verbatim>\<open>main\<close>. \<^verbatim>\<open>atoi\<close> skips white space, reads an optional sign
  and then decimal digits up to the first other character; it yields 0 when there is no
  digit, and a value outside \<^verbatim>\<open>int\<close> is clamped (as \<^verbatim>\<open>strtol\<close> does). \<^verbatim>\<open>basename\<close> is the
  C library's symbol of that name (no \<^verbatim>\<open>libgen.h\<close> is included): the part after the last
  slash. \<^verbatim>\<open>strncpy\<close> copies up to the first NUL or \<open>n\<close> bytes and fills the rest of the
  \<open>n\<close> bytes with NUL.
\<close>

definition isspace :: "char \<Rightarrow> bool" where
  "isspace c = ((of_char c :: nat) = 32 \<or> (9 \<le> (of_char c :: nat) \<and> (of_char c :: nat) \<le> 13))"

definition isdigit :: "char \<Rightarrow> bool" where
  "isdigit c = (48 \<le> (of_char c :: nat) \<and> (of_char c :: nat) \<le> 57)"

fun digits :: "string \<Rightarrow> int \<Rightarrow> int" where
  "digits [] acc = acc"
| "digits (c # cs) acc =
     (if isdigit c then digits cs (10 * acc + (of_char c - 48)) else acc)"

definition atoi :: "string \<Rightarrow> int" where
  "atoi str =
     (let t = dropWhile isspace str;
          v = (case t of
                 [] \<Rightarrow> 0
               | c # cs \<Rightarrow> if c = CHR ''-'' then - digits cs 0
                           else if c = CHR ''+'' then digits cs 0
                           else digits t 0)
      in max (- (2 ^ 31)) (min (2 ^ 31 - 1) v))"

definition basename :: "string \<Rightarrow> string" where
  "basename path = rev (takeWhile (\<lambda>c. c \<noteq> CHR ''/'') (rev path))"

definition strncpy :: "string \<Rightarrow> nat \<Rightarrow> byte list" where
  "strncpy src n = take n (takeWhile (\<lambda>b. b \<noteq> 0) (map of_char src) @ replicate n 0)"

text \<open>
  The image file. \<^verbatim>\<open>open(imageName, O_CREAT | O_RDWR, 0666)\<close> creates an empty file when
  none exists, keeps the content of an existing one, and fails on a directory.
  \<^verbatim>\<open>ftruncate\<close> cuts the content or extends it with zero bytes, and the mapping starts
  with that content.
\<close>

definition open_creat :: "world \<Rightarrow> string \<Rightarrow> byte list option" where
  "open_creat w name =
     (case fs w name of None \<Rightarrow> Some []
      | Some (Regular bs caps) \<Rightarrow> Some bs
      | Some Directory \<Rightarrow> None)"

definition mmap :: "byte list \<Rightarrow> nat \<Rightarrow> image" where
  "mmap old len =
     \<lparr>mem = (\<lambda>a. if a < length old \<and> a < len then old ! a else 0), mapLength = len\<rparr>"

text \<open>Lines 279 to 281: \<^verbatim>\<open>for (uint32_t i = super->avail; i > lastAvail; i--) fat[i] = i - 1;\<close>\<close>

function fat_init :: "u32 \<Rightarrow> u32 \<Rightarrow> image \<Rightarrow> error + image" where
  "fat_init i lastAvail s =
     (if lastAvail < i
      then (case poke32 (fat_entry i) (i - 1) s of Inl e \<Rightarrow> Inl e
            | Inr s' \<Rightarrow> fat_init (i - 1) lastAvail s')
      else Inr s)"
  by pat_completeness auto

lemma unat_pred_less: "(l :: u32) < i \<Longrightarrow> unat (i - 1) < unat i"
  by (metis not_less_iff_gr_or_eq unat_minus_one unat_gt_0 word_gt_0 diff_less zero_less_one
      word_not_simps(1))

termination fat_init
  by (relation "measure (\<lambda>(i, _). unat i)") (auto intro: unat_pred_less)

declare fat_init.simps [simp del]

text \<open>Lines 252 to 281: the super block and the free list. \<^verbatim>\<open>nBlocks * sizeof(uint32_t)\<close>
  is computed in \<^verbatim>\<open>size_t\<close>.\<close>

definition lastAvail_of :: "int \<Rightarrow> u32" where
  "lastAvail_of nBlocks = 1 + (of_int nBlocks * 4 + 511) div 512"

definition init_super :: "int \<Rightarrow> image \<Rightarrow> error + image" where
  "init_super nBlocks s =
     (case poke_bytes super_magic (map of_char ''F439'') s of Inl e \<Rightarrow> Inl e | Inr s1 \<Rightarrow>
       (case poke32 super_nBlocks (of_int nBlocks) s1 of Inl e \<Rightarrow> Inl e | Inr s2 \<Rightarrow>
         (case poke32 super_avail (of_int (nBlocks - 1)) s2 of Inl e \<Rightarrow> Inl e | Inr s3 \<Rightarrow>
           (case peek32 super_avail s3 of Inl e \<Rightarrow> Inl e | Inr i \<Rightarrow>
              fat_init i (lastAvail_of nBlocks) s3))))"

text \<open>Lines 294 to 304: one directory entry per file, in argument order.\<close>

fun pack_files :: "world \<Rightarrow> nat \<Rightarrow> nat \<Rightarrow> string list \<Rightarrow> image \<Rightarrow> error + image" where
  "pack_files w rootData i [] s = Inr s"
| "pack_files w rootData i (fileName # rest) s =
     (case oneFile w fileName s of Inl e \<Rightarrow> Inl e | Inr (x, s1) \<Rightarrow>
       (case poke_bytes (rootData + i * 16) (strncpy (basename fileName) 12) s1 of
          Inl e \<Rightarrow> Inl e
        | Inr s2 \<Rightarrow>
           (case poke32 (rootData + i * 16 + 12) x s2 of Inl e \<Rightarrow> Inl e
            | Inr s3 \<Rightarrow> pack_files w rootData (i + 1) rest s3)))"

text \<open>Lines 284 to 304.\<close>

definition build_root :: "world \<Rightarrow> string list \<Rightarrow> image \<Rightarrow> error + image" where
  "build_root w fileNames s =
     (case getBlock s of Inl e \<Rightarrow> Inl e | Inr (r, s1) \<Rightarrow>
       (case poke32 super_root r s1 of Inl e \<Rightarrow> Inl e | Inr s2 \<Rightarrow>
         (case peek32 super_root s2 of Inl e \<Rightarrow> Inl e | Inr root \<Rightarrow>
           (case poke32 (toPtr root 0) 2 s2 of Inl e \<Rightarrow> Inl e | Inr s3 \<Rightarrow>
             (case poke32 (toPtr root 0 + 4) (of_nat (length fileNames * 16)) s3 of
                Inl e \<Rightarrow> Inl e
              | Inr s4 \<Rightarrow>
                 (case peek32 super_root s4 of Inl e \<Rightarrow> Inl e | Inr root' \<Rightarrow>
                    pack_files w (toPtr root' 8) 0 fileNames s4))))))"

text \<open>
  The calls \<^verbatim>\<open>main\<close> makes on the image file are logged, so that a run also tells what it
  did to the backing store. \<^verbatim>\<open>nBlocks * 512\<close> is an \<^verbatim>\<open>int\<close> product: its overflow is
  undefined behaviour (\<open>Fault\<close>). \<^verbatim>\<open>ftruncate\<close> takes the length as a signed \<^verbatim>\<open>off_t\<close> and
  fails on a negative one; \<^verbatim>\<open>mmap\<close> fails on length 0.
\<close>

datatype store_op = Open string | Ftruncate nat | Mmap nat | Munmap

definition main :: "string list \<Rightarrow> world \<Rightarrow> (error + image) \<times> store_op list" where
  "main argv w =
     (if length argv < 4 then (Inl ArgumentError, [])
      else
        let imageName = argv ! 1;
            nBlocks = atoi (argv ! 2);
            fileNames = drop 3 argv
        in (case open_creat w imageName of
              None \<Rightarrow> (Inl CreateError, [Open imageName])
            | Some old \<Rightarrow>
               if nBlocks * 512 < - (2 ^ 31) \<or> 2 ^ 31 \<le> nBlocks * 512
               then (Inl Fault, [Open imageName])
               else
                 let len = nat ((nBlocks * 512) mod 2 ^ 32) in
                 if 2 ^ 31 \<le> len
                 then (Inl ResizeError, [Open imageName, Ftruncate len])
                 else if len = 0
                 then (Inl MapError, [Open imageName, Ftruncate len, Mmap len])
                 else (case init_super nBlocks (mmap old len) of
                         Inl e \<Rightarrow> (Inl e, [Open imageName, Ftruncate len, Mmap len])
                       | Inr s \<Rightarrow>
                          (case build_root w fileNames s of
                             Inl e \<Rightarrow> (Inl e, [Open imageName, Ftruncate len, Mmap len])
                           | Inr s' \<Rightarrow>
                              (Inr s', [Open imageName, Ftruncate len, Mmap len, Munmap])))))"

section \<open>Reading an image back\<close>

text \<open>The observers the properties are stated with: the fields of the super block, the
  entries of the table, and the chain that starts at a block.\<close>

definition avail_of :: "image \<Rightarrow> u32" where
  "avail_of s = rd32 s super_avail"

definition root_of :: "image \<Rightarrow> u32" where
  "root_of s = rd32 s super_root"

definition fat_of :: "image \<Rightarrow> u32 \<Rightarrow> u32" where
  "fat_of s i = rd32 s (fat_entry i)"

text \<open>The blocks reached from \<open>idx\<close> through \<^verbatim>\<open>fat\<close>, up to the first 0; \<open>None\<close> when the
  fuel does not suffice.\<close>

fun chain :: "nat \<Rightarrow> image \<Rightarrow> u32 \<Rightarrow> u32 list option" where
  "chain 0 s idx = (if idx = 0 then Some [] else None)"
| "chain (Suc k) s idx =
     (if idx = 0 then Some []
      else (case chain k s (fat_of s idx) of None \<Rightarrow> None | Some xs \<Rightarrow> Some (idx # xs)))"

section \<open>Vocabulary of the specification\<close>

text \<open>
  The definitions below are not part of the program. They name what the properties need:
  block indices as words (\<open>w32\<close>), the first data block (\<open>lastAvail\<close>), the invariant of
  the free list (\<open>free_inv\<close>), the places a file occupies (\<open>slot\<close>, \<open>file_at\<close>), what a run
  leaves in the root directory (\<open>packed\<close>, \<open>root_post\<close>), when a run succeeds (\<open>fits\<close>,
  \<open>runs\<close>), a reader of images (\<open>read_chain\<close>, \<open>parse_file\<close>, \<open>parse_image\<close>), the two
  halves of the body of the loop of \<^verbatim>\<open>oneFile\<close> (\<open>next_block\<close>, \<open>read_step\<close>), and the worlds
  and images of the example runs.
\<close>

definition frame :: "nat set \<Rightarrow> image \<Rightarrow> image \<Rightarrow> bool" where
  "frame A s s' = (mapLength s' = mapLength s \<and> (\<forall>a. a \<notin> A \<longrightarrow> mem s' a = mem s a))"

definition w32 :: "nat \<Rightarrow> u32" where
  "w32 n = of_nat n"

definition lastAvail :: "nat \<Rightarrow> nat" where
  "lastAvail N = 1 + (4 * N + 511) div 512"

definition free_inv :: "nat \<Rightarrow> nat \<Rightarrow> image \<Rightarrow> bool" where
  "free_inv N f s =
     (3 \<le> N \<and> N < 2 ^ 22 \<and> mapLength s = 512 * N \<and> lastAvail N + f \<le> N \<and>
      avail_of s = (if f = 0 then 0 else w32 (lastAvail N + f - 1)) \<and>
      (\<forall>i. lastAvail N \<le> i \<and> i < lastAvail N + f \<longrightarrow>
           fat_of s (w32 i) = (if i = lastAvail N then 0 else w32 (i - 1))))"

definition more_blocks :: "nat \<Rightarrow> nat \<Rightarrow> nat" where
  "more_blocks off r = (if r < 512 - off then 0 else 1 + (r - (512 - off)) div 512)"

definition slot :: "nat \<Rightarrow> nat \<Rightarrow> nat \<Rightarrow> nat" where
  "slot B off i =
     (if i < 512 - off then 512 * B + off + i
      else 512 * (B - 1 - (i - (512 - off)) div 512) + (i - (512 - off)) mod 512)"

definition touched :: "nat \<Rightarrow> nat \<Rightarrow> nat \<Rightarrow> nat \<Rightarrow> nat set" where
  "touched L h B off =
     {8 ..< 12} \<union> {512 * h + 4 ..< 512 * h + 8} \<union> {512 + 4 * L ..< 512 + 4 * (B + 1)} \<union>
     {512 * L ..< 512 * B} \<union> {512 * B + off ..< 512 * B + 512}"

definition next_block :: "u32 \<Rightarrow> u32 \<Rightarrow> u32 \<Rightarrow> image \<Rightarrow> error + (u32 \<times> u32 \<times> u32 \<times> image)" where
  "next_block cur off left s =
     (if left = 0
      then (case getBlock s of Inl e \<Rightarrow> Inl e | Inr (b, s1) \<Rightarrow>
             (case poke32 (fat_entry cur) b s1 of Inl e \<Rightarrow> Inl e
              | Inr s2 \<Rightarrow> Inr (b, 0, 512, s2)))
      else Inr (cur, off, left, s))"

definition read_step :: "fd \<Rightarrow> u32 \<Rightarrow> u32 \<Rightarrow> u32 \<Rightarrow> u32 \<Rightarrow> u32 \<Rightarrow> image \<Rightarrow> error + image" where
  "read_step f start cur off left tot s' =
     (case read_fd f (unat left) of
        None \<Rightarrow> Inl ReadError
      | Some (data, f') \<Rightarrow>
         if data = [] then poke32 (toPtr start 0 + 4) tot s'
         else (case poke_bytes (toPtr cur off) data s' of Inl e \<Rightarrow> Inl e
               | Inr s'' \<Rightarrow>
                  oneFile_loop f' start cur
                    (off + of_nat (length data)) (left - of_nat (length data))
                    (tot + of_nat (length data)) s''))"

definition loop_post ::
  "nat \<Rightarrow> nat \<Rightarrow> nat \<Rightarrow> nat \<Rightarrow> nat \<Rightarrow> nat \<Rightarrow> byte list \<Rightarrow> image \<Rightarrow> image \<Rightarrow> bool" where
  "loop_post N f h B off t bs s s' =
     (free_inv N (f - more_blocks off (length bs)) s' \<and>
      rd32 s' (512 * h + 4) = w32 (t + length bs) \<and>
      (\<forall>j. B - more_blocks off (length bs) < j \<and> j \<le> B \<longrightarrow> fat_of s' (w32 j) = w32 (j - 1)) \<and>
      fat_of s' (w32 (B - more_blocks off (length bs))) = 0 \<and>
      (\<forall>i < length bs. mem s' (slot B off i) = bs ! i) \<and>
      frame (touched (lastAvail N) h B off) s s')"

definition loop_ok ::
  "nat \<Rightarrow> nat \<Rightarrow> nat \<Rightarrow> nat \<Rightarrow> nat \<Rightarrow> nat \<Rightarrow> byte list \<Rightarrow> nat list \<Rightarrow> image \<Rightarrow> bool" where
  "loop_ok N f h B off t bs caps s =
     (if more_blocks off (length bs) \<le> f
      then \<exists>s'. oneFile_loop (Stream bs caps) (w32 h) (w32 B) (w32 off) (w32 (512 - off)) (w32 t) s
                  = Inr s' \<and> loop_post N f h B off t bs s s'
      else oneFile_loop (Stream bs caps) (w32 h) (w32 B) (w32 off) (w32 (512 - off)) (w32 t) s
             = Inl DiskFull)"

definition step_ok ::
  "nat \<Rightarrow> nat \<Rightarrow> nat \<Rightarrow> nat \<Rightarrow> nat \<Rightarrow> nat \<Rightarrow> byte list \<Rightarrow> nat list \<Rightarrow> image \<Rightarrow> bool" where
  "step_ok N f h B off t bs caps s =
     (if more_blocks off (length bs) \<le> f
      then \<exists>s'. read_step (Stream bs caps) (w32 h) (w32 B) (w32 off) (w32 (512 - off)) (w32 t) s
                  = Inr s' \<and> loop_post N f h B off t bs s s'
      else read_step (Stream bs caps) (w32 h) (w32 B) (w32 off) (w32 (512 - off)) (w32 t) s
             = Inl DiskFull)"

definition blocks_of :: "nat \<Rightarrow> nat" where
  "blocks_of r = 1 + more_blocks 8 r"

definition file_region :: "nat \<Rightarrow> nat \<Rightarrow> nat set" where
  "file_region L h = {8 ..< 12} \<union> {512 + 4 * L ..< 512 + 4 * (h + 1)} \<union> {512 * L ..< 512 * (h + 1)}"

definition file_at :: "image \<Rightarrow> nat \<Rightarrow> byte list \<Rightarrow> bool" where
  "file_at s h bs =
     (rd32 s (512 * h) = 1 \<and> rd32 s (512 * h + 4) = w32 (length bs) \<and>
      (\<forall>j. h - more_blocks 8 (length bs) < j \<and> j \<le> h \<longrightarrow> fat_of s (w32 j) = w32 (j - 1)) \<and>
      fat_of s (w32 (h - more_blocks 8 (length bs))) = 0 \<and>
      (\<forall>i < length bs. mem s (slot h 8 i) = bs ! i))"

definition fresh :: "nat \<Rightarrow> image" where
  "fresh N = mmap [] (512 * N)"

definition free_list :: "nat \<Rightarrow> u32 list option" where
  "free_list N =
     (case init_super (int N) (fresh N) of Inl e \<Rightarrow> None | Inr s \<Rightarrow> chain N s (avail_of s))"

fun drain :: "nat \<Rightarrow> image \<Rightarrow> u32 list \<times> error option" where
  "drain 0 s = ([], None)"
| "drain (Suc k) s =
     (case getBlock s of Inl e \<Rightarrow> ([], Some e)
      | Inr (b, s') \<Rightarrow> (case drain k s' of (bs, r) \<Rightarrow> (b # bs, r)))"

definition allocations :: "nat \<Rightarrow> u32 list \<times> error option" where
  "allocations N =
     (case init_super (int N) (fresh N) of Inl e \<Rightarrow> ([], Some e) | Inr s \<Rightarrow> drain N s)"

definition no_files :: world where
  "no_files = \<lparr>fs = (\<lambda>name. None)\<rparr>"

definition is_regular :: "world \<Rightarrow> string \<Rightarrow> bool" where
  "is_regular w name = (case fs w name of Some (Regular bs caps) \<Rightarrow> True | _ \<Rightarrow> False)"

definition content_of :: "world \<Rightarrow> string \<Rightarrow> byte list" where
  "content_of w name = (case fs w name of Some (Regular bs caps) \<Rightarrow> bs | _ \<Rightarrow> [])"

definition blocks_needed :: "world \<Rightarrow> string list \<Rightarrow> nat" where
  "blocks_needed w names = sum_list (map (\<lambda>n. blocks_of (length (content_of w n))) names)"

definition footprint :: "nat \<Rightarrow> nat \<Rightarrow> nat set" where
  "footprint lo hi = {512 + 4 * lo ..< 512 + 4 * (hi + 1)} \<union> {512 * lo ..< 512 * (hi + 1)}"

fun packed :: "image \<Rightarrow> world \<Rightarrow> nat \<Rightarrow> nat \<Rightarrow> nat \<Rightarrow> string list \<Rightarrow> bool" where
  "packed s w rd i a [] = True"
| "packed s w rd i a (name # rest) =
     (read_bytes (mem s) (rd + i * 16) 12 = strncpy (basename name) 12 \<and>
      rd32 s (rd + i * 16 + 12) = w32 a \<and>
      file_at s a (content_of w name) \<and>
      packed s w rd (i + 1) (a - blocks_of (length (content_of w name))) rest)"

definition pack_region :: "nat \<Rightarrow> nat \<Rightarrow> nat \<Rightarrow> nat \<Rightarrow> nat \<Rightarrow> nat set" where
  "pack_region L f rd i n =
     {8 ..< 12} \<union> {512 + 4 * L ..< 512 + 4 * (L + f)} \<union> {512 * L ..< 512 * (L + f)} \<union>
     {rd + i * 16 ..< rd + (i + n) * 16}"

definition max_entries :: "nat \<Rightarrow> nat" where
  "max_entries N = (page_end (512 * N) - (512 * (N - 1) + 8)) div 16"

definition fits :: "world \<Rightarrow> nat \<Rightarrow> nat \<Rightarrow> nat \<Rightarrow> string list \<Rightarrow> bool" where
  "fits w N f i names =
     ((\<forall>n \<in> set names. is_regular w n) \<and> blocks_needed w names \<le> f \<and>
      (names \<noteq> [] \<longrightarrow> i + length names \<le> max_entries N))"

definition root_post :: "nat \<Rightarrow> world \<Rightarrow> string list \<Rightarrow> image \<Rightarrow> bool" where
  "root_post N w names s =
     (root_of s = w32 (N - 1) \<and> rd32 s (512 * (N - 1)) = 2 \<and>
      rd32 s (512 * (N - 1) + 4) = of_nat (length names * 16) \<and>
      rd32 s super_nBlocks = w32 N \<and>
      free_inv N (N - lastAvail N - 1 - blocks_needed w names) s \<and>
      packed s w (512 * (N - 1) + 8) 0 (N - 2) names)"

definition runs :: "string list \<Rightarrow> world \<Rightarrow> nat \<Rightarrow> bool" where
  "runs argv w N =
     (4 \<le> length argv \<and> atoi (argv ! 2) = int N \<and> 3 \<le> N \<and> N < 2 ^ 22 \<and>
      fits w N (N - lastAvail N - 1) 0 (drop 3 argv))"

definition head_block :: "nat \<Rightarrow> world \<Rightarrow> string list \<Rightarrow> nat \<Rightarrow> nat" where
  "head_block N w names j = N - 2 - blocks_needed w (take j names)"

text \<open>The demonstration run used by the witnesses: an image of 16 blocks with a 10-byte and
  a 600-byte file, the second one read in short chunks.\<close>

definition demo_world :: world where
  "demo_world =
     \<lparr>fs = (\<lambda>name.
        if name = ''a.txt'' then Some (Regular (replicate 10 65) [])
        else if name = ''dir/big.data'' then Some (Regular (replicate 600 66) [100, 1, 512])
        else None)\<rparr>"

definition demo_argv :: "string list" where
  "demo_argv = [''mkfs'', ''disk.img'', ''16'', ''a.txt'', ''dir/big.data'']"

definition entry_addr :: "image \<Rightarrow> nat \<Rightarrow> nat" where
  "entry_addr s j = toPtr (root_of s) 8 + j * 16"

definition entry_start :: "image \<Rightarrow> nat \<Rightarrow> u32" where
  "entry_start s j = rd32 s (entry_addr s j + 12)"

fun read_chain :: "nat \<Rightarrow> image \<Rightarrow> u32 \<Rightarrow> nat \<Rightarrow> nat \<Rightarrow> byte list option" where
  "read_chain 0 s b off n = None"
| "read_chain (Suc k) s b off n =
     (if n \<le> 512 - off then Some (read_bytes (mem s) (toPtr b (of_nat off)) n)
      else if fat_of s b = 0 then None
      else (case read_chain k s (fat_of s b) 0 (n - (512 - off)) of
              None \<Rightarrow> None
            | Some rest \<Rightarrow>
                Some (read_bytes (mem s) (toPtr b (of_nat off)) (512 - off) @ rest)))"

definition parse_file :: "nat \<Rightarrow> image \<Rightarrow> u32 \<Rightarrow> (nat \<times> byte list) option" where
  "parse_file k s h =
     (if rd32 s (toPtr h 0) = 1
      then (case read_chain k s h 8 (unat (rd32 s (toPtr h 0 + 4))) of
              None \<Rightarrow> None
            | Some bs \<Rightarrow> Some (unat (rd32 s (toPtr h 0 + 4)), bs))
      else None)"

definition parse_image :: "image \<Rightarrow> (byte list \<times> (nat \<times> byte list) option) list option" where
  "parse_image s =
     (if rd32 s (toPtr (root_of s) 0) = 2
      then Some (map (\<lambda>j. (read_bytes (mem s) (entry_addr s j) 12,
                            parse_file (unat (rd32 s super_nBlocks)) s (entry_start s j)))
                  [0 ..< unat (rd32 s (toPtr (root_of s) 0 + 4)) div 16])
      else None)"

definition scenario_world :: "byte list \<Rightarrow> nat list \<Rightarrow> byte list \<Rightarrow> nat list \<Rightarrow> world" where
  "scenario_world c1 k1 c2 k2 =
     \<lparr>fs = (\<lambda>name.
        if name = ''a.txt'' then Some (Regular c1 k1)
        else if name = ''dir/big.data'' then Some (Regular c2 k2)
        else None)\<rparr>"

definition boundary_world :: world where
  "boundary_world =
     \<lparr>fs = (\<lambda>name. if name = ''f504'' then Some (Regular (replicate 504 0) []) else None)\<rparr>"

definition boundary_argv :: "string list" where
  "boundary_argv = [''mkfs'', ''disk.img'', ''8'', ''f504'']"









section \<open>Lemmas\<close>

lemma of_le32_le32: "of_le32 (le32 w) = w"
proof (rule bit_word_eqI)
  fix n assume "n < LENGTH(32)"
  then consider "n < 8" | "8 \<le> n" "n < 16" | "16 \<le> n" "n < 24" | "24 \<le> n" "n < 32"
    by fastforce
  then show "bit (of_le32 (le32 w)) n = bit w n"
    by cases (auto simp add: le32_def of_le32_def bit_simps)
qed

lemma length_le32: "length (le32 w) = 4"
  by (simp add: le32_def)

lemma read_bytes_4: "read_bytes m p 4 = [m p, m (p + 1), m (p + 2), m (p + 3)]"
proof -
  have "[p ..< p + 4] = [p, p + 1, p + 2, p + 3]"
    by (simp add: upt_rec)
  then show ?thesis by (simp add: read_bytes_def)
qed

lemma rd32_cong:
  "(\<And>a. q \<le> a \<Longrightarrow> a < q + 4 \<Longrightarrow> mem s' a = mem s a) \<Longrightarrow> rd32 s' q = rd32 s q"
  by (simp add: rd32_def read_bytes_4)

lemma read_bytes_cong:
  "(\<And>a. q \<le> a \<Longrightarrow> a < q + n \<Longrightarrow> m' a = m a) \<Longrightarrow> read_bytes m' q n = read_bytes m q n"
  by (simp add: read_bytes_def)

lemma read_write_same: "read_bytes (write_bytes m p bs) p (length bs) = bs"
  by (rule nth_equalityI) (simp_all add: read_bytes_def write_bytes_def)

lemma rd32_write_same: "rd32 (s\<lparr>mem := write_bytes (mem s) p (le32 w)\<rparr>) p = w"
  using read_write_same [of "mem s" p "le32 w"]
  by (simp add: rd32_def length_le32 of_le32_le32)

lemma frame_refl: "frame A s s"
  by (simp add: frame_def)

lemma frame_trans: "frame A s s' \<Longrightarrow> frame B s' s'' \<Longrightarrow> frame (A \<union> B) s s''"
  by (simp add: frame_def)

lemma frame_mono: "frame A s s' \<Longrightarrow> A \<subseteq> B \<Longrightarrow> frame B s s'"
  by (auto simp add: frame_def)

lemma frame_rd32: "frame A s s' \<Longrightarrow> {q ..< q + 4} \<inter> A = {} \<Longrightarrow> rd32 s' q = rd32 s q"
  by (rule rd32_cong) (auto simp add: frame_def)

lemma frame_read_bytes:
  "frame A s s' \<Longrightarrow> {q ..< q + n} \<inter> A = {} \<Longrightarrow> read_bytes (mem s') q n = read_bytes (mem s) q n"
  by (rule read_bytes_cong) (auto simp add: frame_def)

lemma page_end_ge: "n \<le> page_end n"
proof -
  define q where "q = (n + 4095) div 4096"
  define r where "r = (n + 4095) mod 4096"
  have "n + 4095 = 4096 * q + r" "r < 4096" by (simp_all add: q_def r_def)
  then have "n \<le> q * 4096" by linarith
  then show ?thesis by (simp add: page_end_def q_def)
qed

lemma page_end_aligned: "page_end (4096 * k) = 4096 * k"
  by (simp add: page_end_def)

lemma mapLength_le_map_end: "mapLength s \<le> map_end s"
  by (simp add: map_end_def page_end_ge)

lemma in_map: "p \<le> mapLength s \<Longrightarrow> p \<le> map_end s"
  using mapLength_le_map_end [of s] by simp

lemma frame_map_end: "frame A s s' \<Longrightarrow> map_end s' = map_end s"
  by (simp add: frame_def map_end_def)

lemma poke_bytes_Inr:
  "p + length bs \<le> mapLength s \<Longrightarrow> poke_bytes p bs s = Inr (s\<lparr>mem := write_bytes (mem s) p bs\<rparr>)"
  by (simp add: poke_bytes_def in_map)

lemma poke_bytes_ok: "p + length bs \<le> map_end s \<Longrightarrow> \<exists>s'. poke_bytes p bs s = Inr s'"
  by (simp add: poke_bytes_def)

lemma poke32_ok': "p + 4 \<le> map_end s \<Longrightarrow> \<exists>s'. poke32 p w s = Inr s'"
  by (simp add: poke32_def poke_bytes_def length_le32)

lemma poke_bytes_frame: "poke_bytes p bs s = Inr s' \<Longrightarrow> frame {p ..< p + length bs} s s'"
  by (auto simp add: poke_bytes_def frame_def write_bytes_def split: if_splits)

lemma poke_bytes_read:
  "poke_bytes p bs s = Inr s' \<Longrightarrow> read_bytes (mem s') p (length bs) = bs"
  by (auto simp add: poke_bytes_def read_write_same split: if_splits)

lemma poke32_frame: "poke32 p w s = Inr s' \<Longrightarrow> frame {p ..< p + 4} s s'"
  using poke_bytes_frame [of p "le32 w" s s'] by (simp add: poke32_def length_le32)

lemma poke32_rd32: "poke32 p w s = Inr s' \<Longrightarrow> rd32 s' p = w"
  by (auto simp add: poke32_def poke_bytes_def rd32_write_same length_le32 split: if_splits)

lemma poke32_ok: "p + 4 \<le> mapLength s \<Longrightarrow> \<exists>s'. poke32 p w s = Inr s'"
  by (simp add: poke32_def poke_bytes_def length_le32 in_map)

lemma peek32_ok: "p + 4 \<le> mapLength s \<Longrightarrow> peek32 p s = Inr (rd32 s p)"
  by (simp add: peek32_def in_map)

lemma unat_w32: "i < 2 ^ 32 \<Longrightarrow> unat (w32 i) = i"
  by (simp add: w32_def unat_of_nat)

lemma w32_eq_0: "i < 2 ^ 32 \<Longrightarrow> (w32 i = 0) = (i = 0)"
  using unat_w32 [of i] by (auto simp add: w32_def)

lemma fat_entry_w32: "i < 2 ^ 22 \<Longrightarrow> fat_entry (w32 i) = 512 + 4 * i"
  by (simp add: fat_entry_def unat_w32)

lemma lastAvail_bounds:
  assumes "3 \<le> N"
  shows "2 \<le> lastAvail N" and "lastAvail N < N" and "512 + 4 * N \<le> 512 * lastAvail N"
proof -
  define q where "q = (4 * N + 511) div 512"
  define r where "r = (4 * N + 511) mod 512"
  have e: "4 * N + 511 = 512 * q + r" by (simp add: q_def r_def)
  have r: "r < 512" by (simp add: r_def)
  have L: "lastAvail N = 1 + q" by (simp add: lastAvail_def q_def)
  show "2 \<le> lastAvail N" using e r assms unfolding L by linarith
  show "lastAvail N < N" using e r assms unfolding L by linarith
  have "512 * lastAvail N = 512 + 512 * q" by (simp add: L)
  then show "512 + 4 * N \<le> 512 * lastAvail N" using e r by linarith
qed

lemma getBlock_full: "free_inv N 0 s \<Longrightarrow> getBlock s = Inl DiskFull"
  by (simp add: free_inv_def getBlock_def peek32_def avail_of_def super_avail_def in_map)

lemma getBlock_step:
  assumes "free_inv N (Suc f) s"
  shows "\<exists>s'. getBlock s = Inr (w32 (lastAvail N + f), s') \<and> free_inv N f s' \<and>
           frame ({8 ..< 12} \<union> {512 + 4 * (lastAvail N + f) ..< 512 + 4 * (lastAvail N + f) + 4}) s s' \<and>
           fat_of s' (w32 (lastAvail N + f)) = 0"
proof -
  let ?L = "lastAvail N"
  let ?b = "?L + f"
  from assms have N: "3 \<le> N" "N < 2 ^ 22" and len: "mapLength s = 512 * N"
    and le: "?L + Suc f \<le> N" and av: "avail_of s = w32 ?b"
    and fat: "\<And>i. ?L \<le> i \<Longrightarrow> i < ?L + Suc f \<Longrightarrow>
           fat_of s (w32 i) = (if i = ?L then 0 else w32 (i - 1))"
    by (simp_all add: free_inv_def)
  note L = lastAvail_bounds [OF N(1)]
  have b: "?b < 2 ^ 22" "?b < N" "0 < ?b" using le N L by simp_all
  have bne: "w32 ?b \<noteq> 0"
    using b by (simp add: w32_eq_0)
  have fe: "fat_entry (w32 ?b) = 512 + 4 * ?b"
    using b by (simp add: fat_entry_w32)
  have in1: "super_avail + 4 \<le> mapLength s" using len N by (simp add: super_avail_def)
  have in2: "512 + 4 * ?b + 4 \<le> mapLength s" using len b L by simp
  let ?nxt = "fat_of s (w32 ?b)"
  obtain s1 where s1: "poke32 super_avail ?nxt s = Inr s1"
    using poke32_ok [OF in1] by blast
  have f1: "frame {8 ..< 12} s s1"
    using poke32_frame [OF s1] by (simp add: super_avail_def)
  have len1: "mapLength s1 = 512 * N" using f1 len by (simp add: frame_def)
  obtain s2 where s2: "poke32 (512 + 4 * ?b) 0 s1 = Inr s2"
    using poke32_ok [of "512 + 4 * ?b" s1] in2 len len1 by auto
  have f2: "frame {512 + 4 * ?b ..< 512 + 4 * ?b + 4} s1 s2"
    using poke32_frame [OF s2] by simp
  have fr: "frame ({8 ..< 12} \<union> {512 + 4 * ?b ..< 512 + 4 * ?b + 4}) s s2"
    using frame_trans [OF f1 f2] .
  have gb: "getBlock s = Inr (w32 ?b, s2)"
    using av bne in1 in2 s1 s2
    by (simp add: getBlock_def peek32_ok avail_of_def fe fat_of_def)
  have z: "fat_of s2 (w32 ?b) = 0"
    using poke32_rd32 [OF s2] by (simp add: fat_of_def fe)
  have av2: "avail_of s2 = ?nxt"
  proof -
    have "rd32 s2 8 = rd32 s1 8"
      by (rule frame_rd32 [OF f2]) auto
    then show ?thesis using poke32_rd32 [OF s1] by (simp add: avail_of_def super_avail_def)
  qed
  have nxt: "?nxt = (if f = 0 then 0 else w32 (?L + f - 1))"
    using fat [of ?b] by simp
  have fat2: "fat_of s2 (w32 i) = (if i = ?L then 0 else w32 (i - 1))"
    if "?L \<le> i" "i < ?L + f" for i
  proof -
    have i: "i < 2 ^ 22" using that b by simp
    have "rd32 s2 (512 + 4 * i) = rd32 s (512 + 4 * i)"
      by (rule frame_rd32 [OF fr]) (use that in auto)
    then show ?thesis using fat [of i] that i by (simp add: fat_of_def fat_entry_w32)
  qed
  have "free_inv N f s2"
    unfolding free_inv_def using N le av2 nxt fat2 fr len by (simp add: frame_def)
  with gb fr z show ?thesis by blast
qed

lemma w32_pred: "0 < i \<Longrightarrow> w32 i - 1 = w32 (i - 1)"
  by (simp add: w32_def)

lemma w32_less: "i < 2 ^ 32 \<Longrightarrow> j < 2 ^ 32 \<Longrightarrow> (w32 i < w32 j) = (i < j)"
  by (simp add: word_less_nat_alt unat_w32)

lemma fat_init_spec:
  assumes "3 \<le> N" "N < 2 ^ 22" "mapLength s = 512 * N" "lastAvail N \<le> i" "i < N"
  shows "\<exists>s'. fat_init (w32 i) (w32 (lastAvail N)) s = Inr s' \<and>
           frame {512 + 4 * (lastAvail N + 1) ..< 512 + 4 * (i + 1)} s s' \<and>
           (\<forall>j. lastAvail N < j \<and> j \<le> i \<longrightarrow> fat_of s' (w32 j) = w32 (j - 1))"
  using assms(3-5)
proof (induction "i - lastAvail N" arbitrary: i s)
  case 0
  then have "i = lastAvail N" by simp
  then show ?case
    by (subst fat_init.simps) (auto simp add: frame_refl)
next
  case (Suc k)
  let ?L = "lastAvail N"
  note L = lastAvail_bounds [OF assms(1)]
  from Suc have i: "?L < i" "i < N" "i < 2 ^ 22" "0 < i" using assms(2) by simp_all
  have lt: "w32 ?L < w32 i" using i assms(2) by (simp add: w32_less)
  have "512 + 4 * i + 4 \<le> mapLength s" using Suc.prems i L by simp
  then obtain s1 where s1: "poke32 (512 + 4 * i) (w32 (i - 1)) s = Inr s1"
    using poke32_ok by blast
  have f1: "frame {512 + 4 * i ..< 512 + 4 * i + 4} s s1"
    using poke32_frame [OF s1] .
  have len1: "mapLength s1 = 512 * N" using f1 Suc.prems by (simp add: frame_def)
  have k: "k = (i - 1) - ?L" using Suc.hyps(2) by simp
  have pre: "?L \<le> i - 1" "i - 1 < N" using i by simp_all
  from Suc.hyps(1) [OF k len1 pre]
  obtain s' where s': "fat_init (w32 (i - 1)) (w32 ?L) s1 = Inr s'"
    and f2: "frame {512 + 4 * (?L + 1) ..< 512 + 4 * (i - 1 + 1)} s1 s'"
    and fat: "\<And>j. ?L < j \<Longrightarrow> j \<le> i - 1 \<Longrightarrow> fat_of s' (w32 j) = w32 (j - 1)"
    by blast
  have run: "fat_init (w32 i) (w32 ?L) s = Inr s'"
    using lt i s1 s' by (subst fat_init.simps) (simp add: fat_entry_w32 w32_pred)
  have fr: "frame {512 + 4 * (?L + 1) ..< 512 + 4 * (i + 1)} s s'"
    by (rule frame_mono [OF frame_trans [OF f1 f2]]) (use i in auto)
  have "fat_of s' (w32 j) = w32 (j - 1)" if "?L < j" "j \<le> i" for j
  proof (cases "j = i")
    case True
    have "rd32 s' (512 + 4 * i) = rd32 s1 (512 + 4 * i)"
      by (rule frame_rd32 [OF f2]) (use i in auto)
    then show ?thesis using poke32_rd32 [OF s1] True i by (simp add: fat_of_def fat_entry_w32)
  next
    case False
    then show ?thesis using fat [of j] that by simp
  qed
  with run fr show ?case by blast
qed

lemma lastAvail_of_nat:
  assumes "N < 2 ^ 22"
  shows "lastAvail_of (int N) = w32 (lastAvail N)"
proof -
  have a: "unat (of_nat N * 4 + 511 :: u32) = 4 * N + 511"
    using assms by (simp add: unat_word_ariths unat_of_nat)
  have "(of_nat N * 4 + 511) div 512 = (of_nat ((4 * N + 511) div 512) :: u32)"
    by (subst word_arith_nat_div) (simp add: a)
  then show ?thesis
    by (simp add: lastAvail_of_def lastAvail_def w32_def)
qed

lemma init_super_spec:
  assumes N: "3 \<le> N" "N < 2 ^ 22" and len: "mapLength s = 512 * N"
    and z: "rd32 s (512 + 4 * lastAvail N) = 0"
  shows "\<exists>s'. init_super (int N) s = Inr s' \<and> free_inv N (N - lastAvail N) s' \<and>
           avail_of s' = w32 (N - 1) \<and> rd32 s' super_nBlocks = w32 N"
proof -
  let ?L = "lastAvail N"
  note L = lastAvail_bounds [OF N(1)]
  have "super_magic + length (map of_char ''F439'' :: byte list) \<le> mapLength s"
    using len N by (simp add: super_magic_def)
  then obtain s1 where s1: "poke_bytes super_magic (map of_char ''F439'') s = Inr s1"
    by (simp add: poke_bytes_Inr)
  have f1: "frame {0 ..< 4} s s1"
    by (rule frame_mono [OF poke_bytes_frame [OF s1]]) (simp add: super_magic_def)
  have len1: "mapLength s1 = 512 * N" using f1 len by (simp add: frame_def)
  obtain s2 where s2: "poke32 4 (w32 N) s1 = Inr s2"
    using poke32_ok [of 4 s1] len1 N by auto
  have f2: "frame {4 ..< 4 + 4} s1 s2" using poke32_frame [OF s2] .
  have len2: "mapLength s2 = 512 * N" using f2 len1 by (simp add: frame_def)
  obtain s3 where s3: "poke32 8 (w32 (N - 1)) s2 = Inr s3"
    using poke32_ok [of 8 s2] len2 N by auto
  have f3: "frame {8 ..< 8 + 4} s2 s3" using poke32_frame [OF s3] .
  have len3: "mapLength s3 = 512 * N" using f3 len2 by (simp add: frame_def)
  have av3: "rd32 s3 8 = w32 (N - 1)" using poke32_rd32 [OF s3] .
  have nb3: "rd32 s3 4 = w32 N"
    using frame_rd32 [OF f3, of 4] poke32_rd32 [OF s2] by simp
  have z3: "rd32 s3 (512 + 4 * ?L) = 0"
    using frame_rd32 [OF f1, of "512 + 4 * ?L"] frame_rd32 [OF f2, of "512 + 4 * ?L"]
      frame_rd32 [OF f3, of "512 + 4 * ?L"] z by simp
  have pre: "?L \<le> N - 1" "N - 1 < N" using L by simp_all
  from fat_init_spec [OF N len3 pre]
  obtain s' where s': "fat_init (w32 (N - 1)) (w32 ?L) s3 = Inr s'"
    and f4: "frame {512 + 4 * (?L + 1) ..< 512 + 4 * (N - 1 + 1)} s3 s'"
    and fat: "\<And>j. ?L < j \<Longrightarrow> j \<le> N - 1 \<Longrightarrow> fat_of s' (w32 j) = w32 (j - 1)"
    by blast
  have o1: "(of_int (int N) :: u32) = w32 N" by (simp add: w32_def)
  have o2: "(of_int (int N - 1) :: u32) = w32 (N - 1)" using N by (simp add: w32_def)
  have run: "init_super (int N) s = Inr s'"
    using s1 s2 s3 s' av3 len3 N
    by (simp add: init_super_def o1 o2 super_nBlocks_def super_avail_def peek32_def
        lastAvail_of_nat w32_pred in_map del: of_int_of_nat_eq)
  have av': "avail_of s' = w32 (N - 1)"
    using frame_rd32 [OF f4, of 8] av3 by (simp add: avail_of_def super_avail_def)
  have nb': "rd32 s' super_nBlocks = w32 N"
    using frame_rd32 [OF f4, of 4] nb3 by (simp add: super_nBlocks_def)
  have z': "fat_of s' (w32 ?L) = 0"
    using frame_rd32 [OF f4, of "512 + 4 * ?L"] z3 L N by (simp add: fat_of_def fat_entry_w32)
  have len': "mapLength s' = 512 * N" using f4 len3 by (simp add: frame_def)
  have "free_inv N (N - ?L) s'"
    unfolding free_inv_def using N L len' av' z' fat by auto
  with run av' nb' show ?thesis by blast
qed

lemma toPtr_w32: "B < 2 ^ 22 \<Longrightarrow> toPtr (w32 B) (w32 o') = 512 * B + unat (w32 o')"
  by (simp add: toPtr_def w32_def unat_word_ariths unat_of_nat)

lemma toPtr_w32': "B < 2 ^ 22 \<Longrightarrow> o' < 2 ^ 32 \<Longrightarrow> toPtr (w32 B) (w32 o') = 512 * B + o'"
  by (simp add: toPtr_w32 unat_w32)

lemma toPtr_0: "B < 2 ^ 22 \<Longrightarrow> toPtr (w32 B) 0 = 512 * B"
  by (simp add: toPtr_def w32_def unat_word_ariths unat_of_nat)

lemma toPtr_8: "B < 2 ^ 22 \<Longrightarrow> toPtr (w32 B) 8 = 512 * B + 8"
  by (simp add: toPtr_def w32_def unat_word_ariths unat_of_nat)

lemma w32_add: "w32 a + of_nat n = w32 (a + n)"
  by (simp add: w32_def)

lemma w32_sub: "n \<le> a \<Longrightarrow> w32 a - of_nat n = w32 (a - n)"
  by (simp add: w32_def)

lemma w32_numerals: "w32 0 = 0" "w32 8 = 8" "w32 504 = 504" "w32 512 = 512" "w32 1 = 1"
  by (simp_all add: w32_def)

lemma read_fd_Stream:
  "\<exists>n. read_fd (Stream bs caps) c = Some (take n bs, Stream (drop n bs) (tl caps)) \<and>
        n \<le> c \<and> n \<le> length bs \<and> (0 < c \<and> bs \<noteq> [] \<longrightarrow> 0 < n)"
proof -
  define m where "m = min c (length bs)"
  define n where "n = (case caps of [] \<Rightarrow> m | k # _ \<Rightarrow> if m = 0 then 0 else max 1 (min k m))"
  have "read_fd (Stream bs caps) c = Some (take n bs, Stream (drop n bs) (tl caps))"
    unfolding n_def m_def by (simp add: Let_def)
  moreover have "n \<le> m" by (cases caps) (auto simp add: n_def)
  moreover have "0 < m \<longrightarrow> 0 < n" by (cases caps) (auto simp add: n_def)
  moreover have "m \<le> c" "m \<le> length bs" "0 < c \<and> bs \<noteq> [] \<longrightarrow> 0 < m"
    by (auto simp add: m_def)
  ultimately show ?thesis by (intro exI [of _ n]) auto
qed

lemma more_blocks_read:
  assumes "n \<le> 512 - off" "n \<le> r"
  shows "more_blocks (off + n) (r - n) = more_blocks off r"
proof -
  have "512 - (off + n) = 512 - off - n" by simp
  moreover have "r - n - (512 - off - n) = r - (512 - off)" using assms by simp
  moreover have "(r - n < 512 - off - n) = (r < 512 - off)" using assms by auto
  ultimately show ?thesis by (simp add: more_blocks_def)
qed

lemma more_blocks_full: "more_blocks 512 r = 1 + more_blocks 0 r"
proof -
  have "r div 512 = (if r < 512 then 0 else 1 + (r - 512) div 512)"
    by (subst div_if) simp
  then show ?thesis by (simp add: more_blocks_def)
qed

lemma slot_shift:
  assumes "n \<le> 512 - off" "n \<le> i"
  shows "slot B (off + n) (i - n) = slot B off i"
proof -
  have "512 - (off + n) = 512 - off - n" by simp
  moreover have "i - n - (512 - off - n) = i - (512 - off)" using assms by simp
  moreover have "(i - n < 512 - off - n) = (i < 512 - off)" using assms by auto
  ultimately show ?thesis using assms by (simp add: slot_def)
qed

lemma slot_here: "i < 512 - off \<Longrightarrow> slot B off i = 512 * B + off + i"
  by (simp add: slot_def)

lemma slot_full: "slot B 512 i = slot (B - 1) 0 i"
proof (cases "i < 512")
  case True
  then show ?thesis by (simp add: slot_def)
next
  case False
  then have "i div 512 = 1 + (i - 512) div 512" "i mod 512 = (i - 512) mod 512"
    by (simp_all add: le_div_geq le_mod_geq)
  with False show ?thesis by (simp add: slot_def)
qed

lemma free_inv_frame:
  assumes "free_inv N f s" "frame A s s'" "A \<inter> {8 ..< 12} = {}"
    "A \<inter> {512 + 4 * lastAvail N ..< 512 + 4 * (lastAvail N + f)} = {}"
  shows "free_inv N f s'"
proof -
  from assms(1) have N: "3 \<le> N" "N < 2 ^ 22" and le: "lastAvail N + f \<le> N"
    by (simp_all add: free_inv_def)
  have av: "avail_of s' = avail_of s"
    unfolding avail_of_def super_avail_def by (rule frame_rd32 [OF assms(2)]) (use assms(3) in auto)
  have "fat_of s' (w32 i) = fat_of s (w32 i)" if "lastAvail N \<le> i" "i < lastAvail N + f" for i
  proof -
    have "i < 2 ^ 22" using that le N by simp
    moreover have "rd32 s' (512 + 4 * i) = rd32 s (512 + 4 * i)"
      by (rule frame_rd32 [OF assms(2)]) (use that assms(4) in auto)
    ultimately show ?thesis by (simp add: fat_of_def fat_entry_w32)
  qed
  with assms(1,2) av show ?thesis by (simp add: free_inv_def frame_def)
qed

lemma oneFile_loop_unfold:
  "oneFile_loop f start cur off left tot s =
     (case next_block cur off left s of Inl e \<Rightarrow> Inl e
      | Inr (cur', off', left', s') \<Rightarrow> read_step f start cur' off' left' tot s')"
  by (subst oneFile_loop.simps) (unfold next_block_def read_step_def, rule refl)

lemma next_block_room:
  "off < 512 \<Longrightarrow> next_block cur (w32 off) (w32 (512 - off)) s = Inr (cur, w32 off, w32 (512 - off), s)"
  by (simp add: next_block_def w32_eq_0)

lemma next_block_full:
  "free_inv N 0 s \<Longrightarrow> next_block cur off (w32 (512 - 512)) s = Inl DiskFull"
  by (simp add: next_block_def w32_numerals getBlock_full)

lemma next_block_alloc:
  assumes inv: "free_inv N (Suc f) s" and B: "B = lastAvail N + Suc f"
  shows "\<exists>s2. next_block (w32 B) off (w32 (512 - 512)) s = Inr (w32 (B - 1), w32 0, w32 (512 - 0), s2) \<and>
            free_inv N f s2 \<and> fat_of s2 (w32 B) = w32 (B - 1) \<and> fat_of s2 (w32 (B - 1)) = 0 \<and>
            frame ({8 ..< 12} \<union> {512 + 4 * (B - 1) ..< 512 + 4 * (B + 1)}) s s2"
proof -
  let ?L = "lastAvail N"
  from inv have N: "3 \<le> N" "N < 2 ^ 22" and len: "mapLength s = 512 * N"
    and fle: "?L + Suc f \<le> N"
    by (simp_all add: free_inv_def)
  note L = lastAvail_bounds [OF N(1)]
  have Bb: "B \<le> N" "B < 2 ^ 22" "B - 1 = ?L + f" "B - 1 < 2 ^ 22" using B fle N by simp_all
  from getBlock_step [OF inv] Bb(3)
  obtain s1 where g: "getBlock s = Inr (w32 (B - 1), s1)" and inv1: "free_inv N f s1"
    and f1: "frame ({8 ..< 12} \<union> {512 + 4 * (B - 1) ..< 512 + 4 * (B - 1) + 4}) s s1"
    and z1: "fat_of s1 (w32 (B - 1)) = 0"
    by auto
  have len1: "mapLength s1 = 512 * N" using f1 len by (simp add: frame_def)
  have "512 + 4 * B + 4 \<le> mapLength s1" using len1 Bb L N by simp
  then obtain s2 where p: "poke32 (512 + 4 * B) (w32 (B - 1)) s1 = Inr s2"
    using poke32_ok by blast
  have f2: "frame {512 + 4 * B ..< 512 + 4 * B + 4} s1 s2" using poke32_frame [OF p] .
  have inv2: "free_inv N f s2"
    by (rule free_inv_frame [OF inv1 f2]) (use B in auto)
  have l2: "fat_of s2 (w32 B) = w32 (B - 1)"
    using poke32_rd32 [OF p] Bb by (simp add: fat_of_def fat_entry_w32)
  have "rd32 s2 (512 + 4 * (B - 1)) = rd32 s1 (512 + 4 * (B - 1))"
    by (rule frame_rd32 [OF f2]) (use B in auto)
  then have z2: "fat_of s2 (w32 (B - 1)) = 0"
    using z1 Bb by (simp add: fat_of_def fat_entry_w32)
  have fr: "frame ({8 ..< 12} \<union> {512 + 4 * (B - 1) ..< 512 + 4 * (B + 1)}) s s2"
    by (rule frame_mono [OF frame_trans [OF f1 f2]]) (use B in auto)
  have "next_block (w32 B) off (w32 (512 - 512)) s = Inr (w32 (B - 1), w32 0, w32 (512 - 0), s2)"
    using g p Bb by (simp add: next_block_def w32_numerals fat_entry_w32)
  with inv2 l2 z2 fr show ?thesis by blast
qed

text \<open>End of input: the length is written into the head block.\<close>

lemma read_step_eof:
  assumes inv: "free_inv N f s" and B: "B = lastAvail N + f" "B \<le> h" "h < N"
    and off: "off < 512" and z: "fat_of s (w32 B) = 0"
  shows "step_ok N f h B off t [] caps s"
proof -
  let ?L = "lastAvail N"
  from inv have N: "3 \<le> N" "N < 2 ^ 22" and len: "mapLength s = 512 * N"
    by (simp_all add: free_inv_def)
  note L = lastAvail_bounds [OF N(1)]
  have hb: "h < 2 ^ 22" "B < 2 ^ 22" "?L \<le> h" using B N by simp_all
  have m: "more_blocks off 0 = 0" using off by (simp add: more_blocks_def)
  have "512 * h + 4 + 4 \<le> mapLength s" using len B by simp
  then obtain s' where p: "poke32 (512 * h + 4) (w32 t) s = Inr s'"
    using poke32_ok by blast
  have fr: "frame {512 * h + 4 ..< 512 * h + 4 + 4} s s'" using poke32_frame [OF p] .
  have run: "read_step (Stream [] caps) (w32 h) (w32 B) (w32 off) (w32 (512 - off)) (w32 t) s = Inr s'"
    using p hb by (simp add: read_step_def Let_def toPtr_0)
  have inv': "free_inv N f s'"
    by (rule free_inv_frame [OF inv fr]) (use hb L B in auto)
  have "rd32 s' (512 + 4 * B) = rd32 s (512 + 4 * B)"
    by (rule frame_rd32 [OF fr]) (use hb L B in auto)
  then have z': "fat_of s' (w32 B) = 0" using z hb by (simp add: fat_of_def fat_entry_w32)
  have fr': "frame (touched ?L h B off) s s'"
    by (rule frame_mono [OF fr]) (auto simp add: touched_def)
  show ?thesis
    unfolding step_ok_def loop_post_def using run inv' z' fr' poke32_rd32 [OF p] by (auto simp add: m)
qed

text \<open>A chunk of \<open>n\<close> bytes is stored and the loop goes on with the rest.\<close>

lemma read_step_data:
  assumes inv: "free_inv N f s" and B: "B = lastAvail N + f" "B \<le> h" "h < N"
    and off: "off < 512" "B = h \<longrightarrow> 8 \<le> off" and z: "fat_of s (w32 B) = 0"
    and ne: "bs \<noteq> []"
    and IH: "\<And>n s3. 0 < n \<Longrightarrow> n \<le> 512 - off \<Longrightarrow> n \<le> length bs \<Longrightarrow> free_inv N f s3 \<Longrightarrow>
               fat_of s3 (w32 B) = 0 \<Longrightarrow>
               loop_ok N f h B (off + n) (t + n) (drop n bs) (tl caps) s3"
  shows "step_ok N f h B off t bs caps s"
proof -
  let ?L = "lastAvail N"
  let ?r = "length bs"
  from inv have N: "3 \<le> N" "N < 2 ^ 22" and len: "mapLength s = 512 * N"
    by (simp_all add: free_inv_def)
  note L = lastAvail_bounds [OF N(1)]
  have hb: "h < 2 ^ 22" "B < 2 ^ 22" "?L \<le> h" "?L \<le> B" "B < N" using B N by simp_all
  have ul: "unat (w32 (512 - off)) = 512 - off" by (simp add: unat_w32)
  from read_fd_Stream [of bs caps "512 - off"] ne off
  obtain n where rd: "read_fd (Stream bs caps) (512 - off) = Some (take n bs, Stream (drop n bs) (tl caps))"
    and n: "n \<le> 512 - off" "n \<le> ?r" "0 < n"
    by auto
  have dne: "take n bs \<noteq> []" "length (take n bs) = n" using n ne by auto
  have "512 * B + off + length (take n bs) \<le> mapLength s" using len hb n off dne by simp
  then obtain s3 where p: "poke_bytes (512 * B + off) (take n bs) s = Inr s3"
    by (simp add: poke_bytes_Inr)
  have f3: "frame {512 * B + off ..< 512 * B + off + n} s s3"
    using poke_bytes_frame [OF p] dne by simp
  have inv3: "free_inv N f s3"
    by (rule free_inv_frame [OF inv f3]) (use hb L B in auto)
  have "rd32 s3 (512 + 4 * B) = rd32 s (512 + 4 * B)"
    by (rule frame_rd32 [OF f3]) (use hb L B in auto)
  then have z3: "fat_of s3 (w32 B) = 0" using z hb by (simp add: fat_of_def fat_entry_w32)
  have mb: "more_blocks (off + n) (?r - n) = more_blocks off ?r"
    by (rule more_blocks_read [OF n(1) n(2)])
  have wr: "read_bytes (mem s3) (512 * B + off) n = take n bs"
    using poke_bytes_read [OF p] dne by simp
  have stored: "mem s3 (512 * B + off + i) = bs ! i" if "i < n" for i
  proof -
    have "read_bytes (mem s3) (512 * B + off) n ! i = mem s3 (512 * B + off + i)"
      using that by (simp add: read_bytes_def)
    then show ?thesis using wr that by simp
  qed
  have unf: "read_step (Stream bs caps) (w32 h) (w32 B) (w32 off) (w32 (512 - off)) (w32 t) s =
      oneFile_loop (Stream (drop n bs) (tl caps)) (w32 h) (w32 B) (w32 (off + n))
        (w32 (512 - (off + n))) (w32 (t + n)) s3"
    using rd dne p hb off n
    by (simp add: read_step_def ul toPtr_w32' w32_add w32_sub)
  note ih = IH [OF n(3) n(1) n(2) inv3 z3]
  show ?thesis
  proof (cases "more_blocks off ?r \<le> f")
    case False
    with ih mb unf show ?thesis by (simp add: loop_ok_def step_ok_def)
  next
    case True
    with ih mb obtain s' where
      run: "oneFile_loop (Stream (drop n bs) (tl caps)) (w32 h) (w32 B) (w32 (off + n))
              (w32 (512 - (off + n))) (w32 (t + n)) s3 = Inr s'"
      and post: "loop_post N f h B (off + n) (t + n) (drop n bs) s3 s'"
      by (auto simp add: loop_ok_def)
    from post mb n have inv': "free_inv N (f - more_blocks off ?r) s'"
      and ln: "rd32 s' (512 * h + 4) = w32 (t + ?r)"
      and links: "\<And>j. B - more_blocks off ?r < j \<Longrightarrow> j \<le> B \<Longrightarrow> fat_of s' (w32 j) = w32 (j - 1)"
      and tail: "fat_of s' (w32 (B - more_blocks off ?r)) = 0"
      and rest: "\<And>i. i < ?r - n \<Longrightarrow> mem s' (slot B (off + n) i) = drop n bs ! i"
      and fr: "frame (touched ?L h B (off + n)) s3 s'"
      by (simp_all add: loop_post_def)
    have content: "mem s' (slot B off i) = bs ! i" if "i < ?r" for i
    proof (cases "i < n")
      case True
      then have sl: "slot B off i = 512 * B + off + i" using n by (simp add: slot_here)
      have "off + i < 512" "B \<le> h" "512 + 4 * (B + 1) \<le> 512 * B" using True n hb L B by simp_all
      then have "512 * B + off + i \<notin> touched ?L h B (off + n)"
        using True off(2) by (cases "B = h") (auto simp add: touched_def)
      then have "mem s' (512 * B + off + i) = mem s3 (512 * B + off + i)"
        using fr by (simp add: frame_def)
      then show ?thesis using sl stored [OF True] by simp
    next
      case False
      then have "slot B (off + n) (i - n) = slot B off i" using n by (simp add: slot_shift)
      moreover have "i - n < ?r - n" using False that by simp
      ultimately show ?thesis using rest [of "i - n"] False n by simp
    qed
    have fr': "frame (touched ?L h B off) s s'"
      by (rule frame_mono [OF frame_trans [OF f3 fr]]) (use n in \<open>auto simp add: touched_def\<close>)
    show ?thesis
      unfolding step_ok_def loop_post_def
      using True run unf inv' ln links tail content fr' by simp
  qed
qed

text \<open>A full block: the next block is taken from the free list and linked.\<close>

lemma loop_alloc:
  assumes inv: "free_inv N (Suc f) s" and B: "B = lastAvail N + Suc f" "B \<le> h" "h < N"
    and step: "\<And>s2. free_inv N f s2 \<Longrightarrow> fat_of s2 (w32 (B - 1)) = 0 \<Longrightarrow>
                 step_ok N f h (B - 1) 0 t bs caps s2"
  shows "loop_ok N (Suc f) h B 512 t bs caps s"
proof -
  let ?L = "lastAvail N"
  let ?r = "length bs"
  let ?m = "more_blocks 0 ?r"
  from inv have N: "3 \<le> N" "N < 2 ^ 22" by (simp_all add: free_inv_def)
  note L = lastAvail_bounds [OF N(1)]
  have hb: "h < 2 ^ 22" "B < 2 ^ 22" "B - 1 = ?L + f" "0 < B" "?L < B" using B N by simp_all
  have mb: "more_blocks 512 ?r = Suc ?m" by (simp add: more_blocks_full)
  from next_block_alloc [OF inv B(1), of "w32 512"]
  obtain s2 where nb: "next_block (w32 B) (w32 512) (w32 (512 - 512)) s =
        Inr (w32 (B - 1), w32 0, w32 (512 - 0), s2)"
    and inv2: "free_inv N f s2" and l2: "fat_of s2 (w32 B) = w32 (B - 1)"
    and z2: "fat_of s2 (w32 (B - 1)) = 0"
    and f2: "frame ({8 ..< 12} \<union> {512 + 4 * (B - 1) ..< 512 + 4 * (B + 1)}) s s2"
    by blast
  have unf: "oneFile_loop (Stream bs caps) (w32 h) (w32 B) (w32 512) (w32 (512 - 512)) (w32 t) s =
      read_step (Stream bs caps) (w32 h) (w32 (B - 1)) (w32 0) (w32 (512 - 0)) (w32 t) s2"
    using nb by (subst oneFile_loop_unfold) simp
  note st = step [OF inv2 z2]
  show ?thesis
  proof (cases "?m \<le> f")
    case False
    with st unf mb show ?thesis by (simp add: loop_ok_def step_ok_def)
  next
    case True
    with st obtain s' where
      run: "read_step (Stream bs caps) (w32 h) (w32 (B - 1)) (w32 0) (w32 (512 - 0)) (w32 t) s2 = Inr s'"
      and post: "loop_post N f h (B - 1) 0 t bs s2 s'"
      by (auto simp add: step_ok_def)
    from post have inv': "free_inv N (f - ?m) s'"
      and ln: "rd32 s' (512 * h + 4) = w32 (t + ?r)"
      and links: "\<And>j. B - 1 - ?m < j \<Longrightarrow> j \<le> B - 1 \<Longrightarrow> fat_of s' (w32 j) = w32 (j - 1)"
      and tail: "fat_of s' (w32 (B - 1 - ?m)) = 0"
      and rest: "\<And>i. i < ?r \<Longrightarrow> mem s' (slot (B - 1) 0 i) = bs ! i"
      and fr: "frame (touched ?L h (B - 1) 0) s2 s'"
      by (simp_all add: loop_post_def)
    have "rd32 s' (512 + 4 * B) = rd32 s2 (512 + 4 * B)"
      by (rule frame_rd32 [OF fr]) (use hb L B in \<open>auto simp add: touched_def\<close>)
    then have lB: "fat_of s' (w32 B) = w32 (B - 1)"
      using l2 hb by (simp add: fat_of_def fat_entry_w32)
    have links': "fat_of s' (w32 j) = w32 (j - 1)" if "B - Suc ?m < j" "j \<le> B" for j
    proof (cases "j = B")
      case True
      then show ?thesis using lB by simp
    next
      case False
      then show ?thesis using links [of j] that by simp
    qed
    have fr': "frame (touched ?L h B 512) s s'"
      by (rule frame_mono [OF frame_trans [OF f2 fr]]) (use hb in \<open>auto simp add: touched_def\<close>)
    have "loop_post N (Suc f) h B 512 t bs s s'"
      unfolding loop_post_def mb
      using inv' ln links' tail rest fr' by (simp add: slot_full)
    with True run unf mb show ?thesis by (simp add: loop_ok_def)
  qed
qed

lemma loop_spec:
  assumes "free_inv N f s" "B = lastAvail N + f" "B \<le> h" "h < N" "off \<le> 512"
    "B = h \<longrightarrow> 8 \<le> off" "fat_of s (w32 B) = 0"
  shows "loop_ok N f h B off t bs caps s"
  using assms
proof (induction "length bs" arbitrary: bs caps f B off t s rule: less_induct)
  case less
  let ?L = "lastAvail N"
  have step: "step_ok N f' h B' off' t bs caps s2"
    if "free_inv N f' s2" "B' = ?L + f'" "B' \<le> h" "off' < 512" "B' = h \<longrightarrow> 8 \<le> off'"
      "fat_of s2 (w32 B') = 0" for f' B' off' s2
  proof (cases "bs = []")
    case True
    show ?thesis unfolding True
      by (rule read_step_eof [OF that(1,2,3) less.prems(4) that(4,6)])
  next
    case False
    show ?thesis
    proof (rule read_step_data [OF that(1,2,3) less.prems(4) that(4,5,6) False])
      fix n s3
      assume n: "0 < n" "n \<le> 512 - off'" "n \<le> length bs"
        and i3: "free_inv N f' s3" and z3: "fat_of s3 (w32 B') = 0"
      have "length (drop n bs) < length bs" using n False by simp
      moreover have "off' + n \<le> 512" "B' = h \<longrightarrow> 8 \<le> off' + n"
        using n that(4,5) by auto
      ultimately show "loop_ok N f' h B' (off' + n) (t + n) (drop n bs) (tl caps) s3"
        using less.hyps [OF _ i3 that(2,3) less.prems(4) _ _ z3] by blast
    qed
  qed
  show ?case
  proof (cases "off < 512")
    case True
    have "oneFile_loop (Stream bs caps) (w32 h) (w32 B) (w32 off) (w32 (512 - off)) (w32 t) s =
        read_step (Stream bs caps) (w32 h) (w32 B) (w32 off) (w32 (512 - off)) (w32 t) s"
      using next_block_room [OF True, of "w32 B" s] by (subst oneFile_loop_unfold) simp
    with step [OF less.prems(1,2,3) True less.prems(6,7)] show ?thesis
      by (simp add: loop_ok_def step_ok_def)
  next
    case False
    with less.prems(5) have off: "off = 512" by simp
    show ?thesis
    proof (cases f)
      case 0
      have "oneFile_loop (Stream bs caps) (w32 h) (w32 B) (w32 512) (w32 (512 - 512)) (w32 t) s =
          Inl DiskFull"
        using next_block_full [of N s "w32 B" "w32 512"] less.prems(1) unfolding 0
        by (subst oneFile_loop_unfold) simp
      then show ?thesis unfolding off 0 by (simp add: loop_ok_def more_blocks_full)
    next
      case (Suc f')
      have B1: "B - 1 = ?L + f'" "B - 1 \<le> h" "B - 1 = h \<longrightarrow> 8 \<le> (0::nat)"
        using less.prems(2,3) Suc by auto
      show ?thesis unfolding off Suc
      proof (rule loop_alloc)
        show "free_inv N (Suc f') s" using less.prems(1) Suc by simp
        show "B = ?L + Suc f'" using less.prems(2) Suc by simp
        show "B \<le> h" "h < N" using less.prems by simp_all
        fix s2 assume "free_inv N f' s2" "fat_of s2 (w32 (B - 1)) = 0"
        then show "step_ok N f' h (B - 1) 0 t bs caps s2"
          using step [of f' s2 "B - 1" 0] B1 by simp
      qed
    qed
  qed
qed

lemma oneFile_full:
  "free_inv N 0 s \<Longrightarrow> open_rdonly w name = Some fd' \<Longrightarrow> oneFile w name s = Inl DiskFull"
  by (simp add: oneFile_def getBlock_full)

lemma oneFile_spec:
  assumes inv: "free_inv N (Suc f) s" and op: "open_rdonly w name = Some (Stream bs caps)"
  shows "if more_blocks 8 (length bs) \<le> f
         then \<exists>s'. oneFile w name s = Inr (w32 (lastAvail N + f), s') \<and>
                free_inv N (f - more_blocks 8 (length bs)) s' \<and>
                file_at s' (lastAvail N + f) bs \<and>
                frame (file_region (lastAvail N) (lastAvail N + f)) s s'
         else oneFile w name s = Inl DiskFull"
proof -
  let ?L = "lastAvail N"
  let ?h = "?L + f"
  let ?m = "more_blocks 8 (length bs)"
  from inv have N: "3 \<le> N" "N < 2 ^ 22" and len: "mapLength s = 512 * N"
    and fle: "?L + Suc f \<le> N"
    by (simp_all add: free_inv_def)
  note L = lastAvail_bounds [OF N(1)]
  have hb: "?h < N" "?h < 2 ^ 22" using fle N by simp_all
  from getBlock_step [OF inv]
  obtain s1 where g: "getBlock s = Inr (w32 ?h, s1)" and inv1: "free_inv N f s1"
    and f1: "frame ({8 ..< 12} \<union> {512 + 4 * ?h ..< 512 + 4 * ?h + 4}) s s1"
    and z1: "fat_of s1 (w32 ?h) = 0"
    by blast
  have len1: "mapLength s1 = 512 * N" using f1 len by (simp add: frame_def)
  have "512 * ?h + 4 \<le> mapLength s1" using len1 hb by simp
  then obtain s2 where p: "poke32 (512 * ?h) 1 s1 = Inr s2"
    using poke32_ok by blast
  have f2: "frame {512 * ?h ..< 512 * ?h + 4} s1 s2" using poke32_frame [OF p] .
  have inv2: "free_inv N f s2"
    by (rule free_inv_frame [OF inv1 f2]) (use L hb in auto)
  have "rd32 s2 (512 + 4 * ?h) = rd32 s1 (512 + 4 * ?h)"
    by (rule frame_rd32 [OF f2]) (use L hb in auto)
  then have z2: "fat_of s2 (w32 ?h) = 0" using z1 hb by (simp add: fat_of_def fat_entry_w32)
  have tag2: "rd32 s2 (512 * ?h) = 1" using poke32_rd32 [OF p] .
  have unf: "oneFile w name s =
      (case oneFile_loop (Stream bs caps) (w32 ?h) (w32 ?h) (w32 8) (w32 (512 - 8)) (w32 0) s2 of
         Inl e \<Rightarrow> Inl e | Inr s3 \<Rightarrow> Inr (w32 ?h, s3))"
    using op g p hb by (simp add: oneFile_def toPtr_0 w32_numerals)
  have lo: "loop_ok N f ?h ?h 8 0 bs caps s2"
    by (rule loop_spec [OF inv2 refl _ hb(1) _ _ z2]) simp_all
  show ?thesis
  proof (cases "?m \<le> f")
    case False
    with lo unf show ?thesis by (simp add: loop_ok_def)
  next
    case True
    with lo obtain s' where
      run: "oneFile_loop (Stream bs caps) (w32 ?h) (w32 ?h) (w32 8) (w32 (512 - 8)) (w32 0) s2 = Inr s'"
      and post: "loop_post N f ?h ?h 8 0 bs s2 s'"
      by (auto simp add: loop_ok_def)
    from post have inv': "free_inv N (f - ?m) s'"
      and ln: "rd32 s' (512 * ?h + 4) = w32 (length bs)"
      and links: "\<And>j. ?h - ?m < j \<Longrightarrow> j \<le> ?h \<Longrightarrow> fat_of s' (w32 j) = w32 (j - 1)"
      and tail: "fat_of s' (w32 (?h - ?m)) = 0"
      and rest: "\<And>i. i < length bs \<Longrightarrow> mem s' (slot ?h 8 i) = bs ! i"
      and fr: "frame (touched ?L ?h ?h 8) s2 s'"
      by (simp_all add: loop_post_def)
    have "rd32 s' (512 * ?h) = rd32 s2 (512 * ?h)"
      by (rule frame_rd32 [OF fr]) (use L hb in \<open>auto simp add: touched_def\<close>)
    with tag2 have tag: "rd32 s' (512 * ?h) = 1" by simp
    have fa: "file_at s' ?h bs"
      unfolding file_at_def using tag ln links tail rest by simp
    have fr': "frame (file_region ?L ?h) s s'"
      by (rule frame_mono [OF frame_trans [OF frame_trans [OF f1 f2] fr]])
        (use L hb in \<open>auto simp add: touched_def file_region_def\<close>)
    from True run unf inv' fa fr' show ?thesis by simp
  qed
qed

lemma oneFile_missing: "open_rdonly w name = None \<Longrightarrow> oneFile w name s = Inl OpenError"
  by (simp add: oneFile_def)

lemma oneFile_broken: "open_rdonly w name = Some Broken \<Longrightarrow> isl (oneFile w name s)"
  by (simp add: oneFile_def oneFile_loop_unfold next_block_def read_step_def
      split: sum.splits prod.splits)

lemma chain_0: "chain k s 0 = Some []"
  by (cases k) simp_all

lemma chain_links:
  assumes "\<And>i. l \<le> i \<Longrightarrow> i < l + Suc g \<Longrightarrow> fat_of s (w32 i) = (if i = l then 0 else w32 (i - 1))"
    and "l + g < 2 ^ 32" "0 < l" "g < k"
  shows "chain k s (w32 (l + g)) = Some (map w32 (rev [l ..< l + Suc g]))"
  using assms
proof (induction g arbitrary: k)
  case 0
  then obtain k' where k: "k = Suc k'" by (cases k) auto
  have "w32 l \<noteq> 0" using 0 by (simp add: w32_eq_0)
  moreover have "fat_of s (w32 l) = 0" using 0(1) [of l] by simp
  ultimately show ?case by (simp add: k chain_0)
next
  case (Suc g)
  then obtain k' where k: "k = Suc k'" by (cases k) auto
  have ne: "w32 (l + Suc g) \<noteq> 0" using Suc.prems by (simp add: w32_eq_0)
  have nx: "fat_of s (w32 (l + Suc g)) = w32 (l + g)" using Suc.prems(1) [of "l + Suc g"] by simp
  have "chain k' s (w32 (l + g)) = Some (map w32 (rev [l ..< l + Suc g]))"
    by (rule Suc.IH) (use Suc.prems k in auto)
  then show ?case using ne nx by (simp add: k)
qed

lemma free_inv_chain:
  assumes "free_inv N (Suc f) s" "f < k"
  shows "chain k s (avail_of s) = Some (map w32 (rev [lastAvail N ..< lastAvail N + Suc f]))"
proof -
  from assms(1) have N: "3 \<le> N" "N < 2 ^ 22" and fle: "lastAvail N + Suc f \<le> N"
    and av: "avail_of s = w32 (lastAvail N + f)"
    and fat: "\<And>i. lastAvail N \<le> i \<Longrightarrow> i < lastAvail N + Suc f \<Longrightarrow>
           fat_of s (w32 i) = (if i = lastAvail N then 0 else w32 (i - 1))"
    by (simp_all add: free_inv_def)
  note L = lastAvail_bounds [OF N(1)]
  show ?thesis unfolding av
    by (rule chain_links [OF fat _ _ assms(2)]) (use L N fle in auto)
qed

lemma drain_spec:
  "free_inv N f s \<Longrightarrow> f < k \<Longrightarrow>
   drain k s = (map w32 (rev [lastAvail N ..< lastAvail N + f]), Some DiskFull)"
proof (induction f arbitrary: k s)
  case 0
  then obtain k' where k: "k = Suc k'" by (cases k) auto
  show ?case using getBlock_full [OF 0(1)] by (simp add: k)
next
  case (Suc f)
  then obtain k' where k: "k = Suc k'" by (cases k) auto
  from getBlock_step [OF Suc.prems(1)]
  obtain s' where g: "getBlock s = Inr (w32 (lastAvail N + f), s')" and inv': "free_inv N f s'"
    by blast
  have "drain k' s' = (map w32 (rev [lastAvail N ..< lastAvail N + f]), Some DiskFull)"
    by (rule Suc.IH [OF inv']) (use Suc.prems k in simp)
  then show ?case using g by (simp add: k)
qed

lemma fresh_clean: "mapLength (fresh N) = 512 * N" "rd32 (fresh N) p = 0"
  by (simp_all add: fresh_def mmap_def rd32_def read_bytes_4 of_le32_def)

lemma init_fresh:
  assumes "3 \<le> N" "N < 2 ^ 22"
  shows "\<exists>s. init_super (int N) (fresh N) = Inr s \<and> free_inv N (N - lastAvail N) s \<and>
           avail_of s = w32 (N - 1) \<and> rd32 s super_nBlocks = w32 N"
  by (rule init_super_spec [OF assms fresh_clean])

lemma free_list_spec:
  assumes "3 \<le> N" "N < 2 ^ 22"
  shows "free_list N = Some (map w32 (rev [lastAvail N ..< N]))"
proof -
  note L = lastAvail_bounds [OF assms(1)]
  from init_fresh [OF assms] obtain s where i: "init_super (int N) (fresh N) = Inr s"
    and inv: "free_inv N (N - lastAvail N) s" by blast
  have e: "N - lastAvail N = Suc (N - lastAvail N - 1)" using L by simp
  have "chain N s (avail_of s) =
      Some (map w32 (rev [lastAvail N ..< lastAvail N + Suc (N - lastAvail N - 1)]))"
    by (rule free_inv_chain) (use inv e L in auto)
  then show ?thesis using i L by (simp add: free_list_def)
qed

lemma allocations_spec:
  assumes "3 \<le> N" "N < 2 ^ 22"
  shows "allocations N = (map w32 (rev [lastAvail N ..< N]), Some DiskFull)"
proof -
  note L = lastAvail_bounds [OF assms(1)]
  from init_fresh [OF assms] obtain s where i: "init_super (int N) (fresh N) = Inr s"
    and inv: "free_inv N (N - lastAvail N) s" by blast
  have "drain N s = (map w32 (rev [lastAvail N ..< lastAvail N + (N - lastAvail N)]), Some DiskFull)"
    by (rule drain_spec [OF inv]) (use L in simp)
  then show ?thesis using i L by (simp add: allocations_def)
qed

lemma getBlock_DiskFull_iff:
  "super_avail + 4 \<le> mapLength s \<Longrightarrow> (getBlock s = Inl DiskFull) = (avail_of s = 0)"
  by (auto simp add: getBlock_def peek32_def poke32_def poke_bytes_def avail_of_def
      dest: in_map split: sum.splits if_splits)

lemma w32_inj: "i < 2 ^ 32 \<Longrightarrow> j < 2 ^ 32 \<Longrightarrow> (w32 i = w32 j) = (i = j)"
  by (metis unat_w32)

lemma w32_le: "i < 2 ^ 32 \<Longrightarrow> j < 2 ^ 32 \<Longrightarrow> (w32 i \<le> w32 j) = (i \<le> j)"
  by (simp add: word_le_nat_alt unat_w32)

lemma distinct_w32: "\<forall>x \<in> set xs. x < 2 ^ 32 \<Longrightarrow> distinct xs \<Longrightarrow> distinct (map w32 xs)"
  by (simp add: distinct_map inj_on_def w32_inj)

lemma poke_bytes_err: "poke_bytes p bs s = Inl e \<Longrightarrow> e = Fault"
  by (simp add: poke_bytes_def split: if_splits)

lemma poke32_err: "poke32 p v s = Inl e \<Longrightarrow> e = Fault"
  by (simp add: poke32_def poke_bytes_err)

lemma peek32_err: "peek32 p s = Inl e \<Longrightarrow> e = Fault"
  by (simp add: peek32_def split: if_splits)

lemma getBlock_err: "getBlock s \<noteq> Inl ArgumentError"
  by (auto simp add: getBlock_def split: sum.splits if_splits dest: poke32_err peek32_err)

lemma fat_init_err: "fat_init i l s \<noteq> Inl ArgumentError"
proof (induction i l s rule: fat_init.induct)
  case (1 i l s)
  show ?case
    by (subst fat_init.simps) (auto split: if_splits sum.splits dest: poke32_err simp add: "1.IH")
qed

lemma init_super_err: "init_super n s \<noteq> Inl ArgumentError"
  by (auto simp add: init_super_def fat_init_err split: sum.splits
      dest: poke32_err peek32_err poke_bytes_err)

lemma next_block_err: "next_block cur off left s \<noteq> Inl ArgumentError"
  by (auto simp add: next_block_def getBlock_err split: sum.splits prod.splits dest: poke32_err)

lemma oneFile_loop_err: "oneFile_loop f st cur off left tot s \<noteq> Inl ArgumentError"
proof (induction "pending f" arbitrary: f cur off left tot s rule: less_induct)
  case less
  have "read_step f st cur' off' left' tot s' \<noteq> Inl ArgumentError" for cur' off' left' s'
  proof (cases "read_fd f (unat left')")
    case None
    then show ?thesis by (simp add: read_step_def)
  next
    case (Some r)
    obtain data f' where r: "r = (data, f')" by (cases r)
    show ?thesis
    proof (cases "data = []")
      case True
      then show ?thesis using Some r by (auto simp add: read_step_def dest: poke32_err)
    next
      case False
      then have "pending f' < pending f" using Some r read_fd_pending by blast
      from less [OF this] False show ?thesis using Some r
        by (auto simp add: read_step_def split: sum.splits dest: poke_bytes_err)
    qed
  qed
  then show ?case
    by (subst oneFile_loop_unfold) (auto simp add: next_block_err split: sum.splits prod.splits)
qed

lemma oneFile_err: "oneFile w name s \<noteq> Inl ArgumentError"
  by (auto simp add: oneFile_def getBlock_err oneFile_loop_err
      split: option.splits sum.splits prod.splits dest: poke32_err)

lemma pack_files_err: "pack_files w rd i names s \<noteq> Inl ArgumentError"
proof (induction names arbitrary: i s)
  case Nil
  then show ?case by simp
next
  case (Cons n names)
  show ?case
    by (auto split: sum.splits prod.splits dest: poke32_err poke_bytes_err
        simp add: oneFile_err Cons.IH)
qed

lemma build_root_err: "build_root w names s \<noteq> Inl ArgumentError"
  by (auto simp add: build_root_def getBlock_err pack_files_err split: sum.splits prod.splits
      dest: poke32_err peek32_err)

lemma main_few_args: "length argv < 4 \<Longrightarrow> main argv w = (Inl ArgumentError, [])"
  by (simp add: main_def)

lemma main_enough_args:
  assumes "4 \<le> length argv"
  shows "fst (main argv w) \<noteq> Inl ArgumentError \<and> snd (main argv w) \<noteq> [] \<and>
         hd (snd (main argv w)) = Open (argv ! 1)"
  using assms
  by (auto simp add: main_def Let_def init_super_err build_root_err split: option.splits sum.splits)

lemma lastAvail_8: "lastAvail 8 = 2"
  by (simp add: lastAvail_def)

lemma upt_2_8: "rev [2 ..< 8] = [7, 6, 5, 4, 3, 2 :: nat]"
  by (simp add: upt_rec)

lemma sorted_w32_rev_upt:
  assumes "n \<le> 2 ^ 32"
  shows "sorted_wrt (\<lambda>a b. b < a) (map w32 (rev [l ..< n]))"
proof -
  have "sorted_wrt (\<lambda>x y. w32 y < w32 x) (rev [l ..< n])"
  proof (rule sorted_wrt_mono_rel [of _ "\<lambda>x y. y < x"])
    fix x y assume "x \<in> set (rev [l ..< n])" "y \<in> set (rev [l ..< n])" "y < x"
    then show "w32 y < w32 x" using assms by (simp add: w32_less)
  next
    show "sorted_wrt (\<lambda>x y. y < x) (rev [l ..< n])"
      by (simp add: sorted_wrt_rev)
  qed
  then show ?thesis by (simp add: sorted_wrt_map)
qed

lemma main_nonpositive:
  assumes "4 \<le> length argv" "atoi (argv ! 2) \<le> 0"
  shows "fst (main argv w) \<in> {Inl CreateError, Inl Fault, Inl ResizeError, Inl MapError}"
proof (cases "open_creat w (argv ! 1)")
  case None
  then show ?thesis using assms(1) by (simp add: main_def Let_def)
next
  case (Some old)
  define n where "n = atoi (argv ! 2)"
  have n: "n \<le> 0" using assms(2) by (simp add: n_def)
  consider (zero) "n = 0" | (low) "n * 512 < - (2 ^ 31)"
    | (neg) "- (2 ^ 31) \<le> n * 512" "n * 512 < 0"
    using n by fastforce
  then show ?thesis
  proof cases
    case zero
    then show ?thesis using assms(1) Some by (simp add: main_def Let_def n_def [symmetric])
  next
    case low
    then show ?thesis using assms(1) Some by (simp add: main_def Let_def n_def [symmetric])
  next
    case neg
    have "(n * 512) mod 2 ^ 32 = (n * 512 + 2 ^ 32) mod 2 ^ 32" by simp
    also have "\<dots> = n * 512 + 2 ^ 32" using neg by (intro mod_pos_pos_trivial) simp_all
    finally have "2 ^ 31 \<le> nat ((n * 512) mod 2 ^ 32)" using neg by simp
    then show ?thesis using assms(1) Some neg by (simp add: main_def Let_def n_def [symmetric])
  qed
qed

lemma length_strncpy: "length (strncpy src n) = n"
  by (simp add: strncpy_def)

lemma slot_range:
  assumes "i < r" "off \<le> 512" "more_blocks off r \<le> h"
  shows "512 * (h - more_blocks off r) \<le> slot h off i \<and> slot h off i < 512 * (h + 1)"
proof (cases "i < 512 - off")
  case True
  have "h - more_blocks off r \<le> h" by simp
  then have "512 * (h - more_blocks off r) \<le> 512 * h + off + i" by linarith
  moreover have "512 * h + off + i < 512 * (h + 1)" using True by simp
  moreover have "slot h off i = 512 * h + off + i" using True by (simp add: slot_def)
  ultimately show ?thesis by simp
next
  case False
  define q where "q = (i - (512 - off)) div 512"
  define q' where "q' = (r - (512 - off)) div 512"
  have "q \<le> q'" unfolding q_def q'_def by (rule div_le_mono) (use assms in simp)
  moreover have m: "more_blocks off r = 1 + q'" using False assms by (simp add: more_blocks_def q'_def)
  moreover have "(i - (512 - off)) mod 512 < 512" by simp
  moreover have "slot h off i = 512 * (h - 1 - q) + (i - (512 - off)) mod 512"
    using False by (simp add: slot_def q_def)
  ultimately show ?thesis using assms(3) by auto
qed

lemma file_at_frame:
  assumes fa: "file_at s h bs" and fr: "frame A s s'"
    and m: "more_blocks 8 (length bs) \<le> h" "h < 2 ^ 22"
    and d: "A \<inter> footprint (h - more_blocks 8 (length bs)) h = {}"
  shows "file_at s' h bs"
proof -
  let ?m = "more_blocks 8 (length bs)"
  have r: "rd32 s' p = rd32 s p" if "512 * (h - ?m) \<le> p" "p + 4 \<le> 512 * (h + 1)" for p
    by (rule frame_rd32 [OF fr]) (use that d in \<open>auto simp add: footprint_def\<close>)
  have t: "rd32 s' (512 + 4 * j) = rd32 s (512 + 4 * j)" if "h - ?m \<le> j" "j \<le> h" for j
    by (rule frame_rd32 [OF fr]) (use that d in \<open>auto simp add: footprint_def\<close>)
  have t': "fat_of s' (w32 j) = fat_of s (w32 j)" if "h - ?m \<le> j" "j \<le> h" for j
    using t [OF that] that m by (simp add: fat_of_def fat_entry_w32)
  have c: "mem s' (slot h 8 i) = mem s (slot h 8 i)" if "i < length bs" for i
  proof -
    from slot_range [OF that _ m(1)] have "slot h 8 i \<in> footprint (h - ?m) h"
      by (simp add: footprint_def)
    with d have "slot h 8 i \<notin> A" by auto
    with fr show ?thesis by (simp add: frame_def)
  qed
  have h0: "512 * (h - ?m) \<le> 512 * h" by simp
  show ?thesis
    unfolding file_at_def using fa r [of "512 * h"] r [of "512 * h + 4"] t' c h0
    by (simp add: file_at_def)
qed

lemma page_tail:
  assumes "1 \<le> N"
  obtains k where "1 \<le> k" "page_end (512 * N) = 512 * (N - 1) + 512 * k"
    "max_entries N = 32 * k - 1"
proof -
  define q where "q = (512 * N + 4095) div 4096"
  have P: "page_end (512 * N) = 512 * (8 * q)" by (simp add: page_end_def q_def)
  have "512 * N \<le> 512 * (8 * q)" using page_end_ge [of "512 * N"] unfolding P .
  then have "N \<le> 8 * q" by simp
  define k where "k = 8 * q - N + 1"
  have k: "1 \<le> k" "8 * q = (N - 1) + k" using \<open>N \<le> 8 * q\<close> assms by (simp_all add: k_def)
  have e: "page_end (512 * N) = 512 * (N - 1) + 512 * k" unfolding P k(2) by simp
  have "512 * k - 8 = 16 * (32 * k - 1) + 8" using k(1) by simp
  then have "(512 * k - 8) div 16 = 32 * k - 1" by simp
  then have "max_entries N = 32 * k - 1" unfolding max_entries_def e by simp
  with k(1) e that show thesis by blast
qed

lemma entry_fits:
  assumes "1 \<le> N" "i < max_entries N"
  shows "512 * (N - 1) + 8 + i * 16 + 16 \<le> page_end (512 * N)"
proof -
  from page_tail [OF assms(1)] obtain k where k: "1 \<le> k"
    "page_end (512 * N) = 512 * (N - 1) + 512 * k" "max_entries N = 32 * k - 1" by blast
  from assms(2) k(1,3) have "i * 16 + 32 \<le> 512 * k" by simp
  then show ?thesis unfolding k(2) by simp
qed

lemma entry_no_fit:
  assumes "1 \<le> N" "max_entries N \<le> i"
  shows "page_end (512 * N) < 512 * (N - 1) + 8 + i * 16 + 12"
proof -
  from page_tail [OF assms(1)] obtain k where k: "1 \<le> k"
    "page_end (512 * N) = 512 * (N - 1) + 512 * k" "max_entries N = 32 * k - 1" by blast
  from assms(2) k(1,3) have "512 * k \<le> i * 16 + 16" by simp
  then show ?thesis unfolding k(2) by simp
qed

lemma max_entries_le:
  assumes "1 \<le> N"
  shows "max_entries N \<le> 255"
proof -
  from page_tail [OF assms] obtain k where k: "1 \<le> k"
    "page_end (512 * N) = 512 * (N - 1) + 512 * k" "max_entries N = 32 * k - 1" by blast
  define q where "q = (512 * N + 4095) div 4096"
  define r where "r = (512 * N + 4095) mod 4096"
  have "512 * N + 4095 = 4096 * q + r" by (simp add: q_def r_def)
  moreover have "page_end (512 * N) = 4096 * q" by (simp add: page_end_def q_def)
  ultimately have "page_end (512 * N) \<le> 512 * N + 4095" by linarith
  with k(2) assms have "512 * k \<le> 4607" by simp
  then have "k \<le> 8" by simp
  then show ?thesis unfolding k(3) by simp
qed

lemma max_entries_ge:
  assumes "1 \<le> N"
  shows "31 \<le> max_entries N"
proof -
  from page_tail [OF assms] obtain k where k: "1 \<le> k" "max_entries N = 32 * k - 1" by blast
  from k(1) show ?thesis unfolding k(2) by simp
qed

lemma blocks_of_pos: "0 < blocks_of r"
  by (simp add: blocks_of_def)

lemma pack_files_irregular:
  "\<not> is_regular w n \<Longrightarrow> isl (pack_files w rd i (n # names) s)"
proof (cases "fs w n")
  case None
  then have "oneFile w n s = Inl OpenError" by (simp add: oneFile_missing open_rdonly_def)
  then show ?thesis by simp
next
  case (Some nd)
  assume "\<not> is_regular w n"
  with Some have "nd = Directory" by (cases nd) (simp_all add: is_regular_def)
  with Some have "isl (oneFile w n s)" by (simp add: oneFile_broken open_rdonly_def)
  then show ?thesis by (cases "oneFile w n s") simp_all
qed

lemma pack_files_step:
  assumes inv: "free_inv N (Suc f0) s" and top: "lastAvail N + Suc f0 < N"
    and rd: "rd = 512 * (N - 1) + 8"
    and reg: "fs w n = Some (Regular bs caps)"
    and room: "more_blocks 8 (length bs) \<le> f0" and i: "i < max_entries N"
  shows "\<exists>s3. (pack_files w rd i (n # names) s = pack_files w rd (i + 1) names s3) \<and>
           free_inv N (f0 - more_blocks 8 (length bs)) s3 \<and>
           read_bytes (mem s3) (rd + i * 16) 12 = strncpy (basename n) 12 \<and>
           rd32 s3 (rd + i * 16 + 12) = w32 (lastAvail N + f0) \<and>
           file_at s3 (lastAvail N + f0) bs \<and>
           frame (file_region (lastAvail N) (lastAvail N + f0) \<union> {rd + i * 16 ..< rd + i * 16 + 16}) s s3"
proof -
  let ?L = "lastAvail N"
  let ?h = "?L + f0"
  let ?m = "more_blocks 8 (length bs)"
  from inv have N: "3 \<le> N" "N < 2 ^ 22" and len: "mapLength s = 512 * N"
    by (simp_all add: free_inv_def)
  note L = lastAvail_bounds [OF N(1)]
  have op: "open_rdonly w n = Some (Stream bs caps)" using reg by (simp add: open_rdonly_def)
  from oneFile_spec [OF inv op] room
  obtain s1 where o: "oneFile w n s = Inr (w32 ?h, s1)" and inv1: "free_inv N (f0 - ?m) s1"
    and fa1: "file_at s1 ?h bs" and f1: "frame (file_region ?L ?h) s s1"
    by auto
  have len1: "mapLength s1 = 512 * N" using f1 len by (simp add: frame_def)
  have ef: "rd + i * 16 + 16 \<le> page_end (512 * N)"
    unfolding rd by (rule entry_fits) (use N i in simp_all)
  have "rd + i * 16 + length (strncpy (basename n) 12) \<le> map_end s1"
    using len1 ef by (simp add: length_strncpy map_end_def)
  then obtain s2 where p2: "poke_bytes (rd + i * 16) (strncpy (basename n) 12) s1 = Inr s2"
    using poke_bytes_ok by blast
  have f2: "frame {rd + i * 16 ..< rd + i * 16 + 12} s1 s2"
    using poke_bytes_frame [OF p2] by (simp add: length_strncpy)
  have len2: "mapLength s2 = 512 * N" using f2 len1 by (simp add: frame_def)
  have "rd + i * 16 + 12 + 4 \<le> map_end s2" using len2 ef by (simp add: map_end_def)
  then obtain s3 where p3: "poke32 (rd + i * 16 + 12) (w32 ?h) s2 = Inr s3"
    using poke32_ok' by blast
  have f3: "frame {rd + i * 16 + 12 ..< rd + i * 16 + 12 + 4} s2 s3"
    using poke32_frame [OF p3] .
  have f23: "frame {rd + i * 16 ..< rd + i * 16 + 16} s1 s3"
    by (rule frame_mono [OF frame_trans [OF f2 f3]]) auto
  have low: "512 * (?h + 1) \<le> rd" "512 + 4 * N \<le> 512 * ?L" using top rd L by simp_all
  have inv3: "free_inv N (f0 - ?m) s3"
    by (rule free_inv_frame [OF inv1 f23]) (use low top L in auto)
  have "read_bytes (mem s3) (rd + i * 16) 12 = read_bytes (mem s2) (rd + i * 16) 12"
    by (rule frame_read_bytes [OF f3]) auto
  then have nm: "read_bytes (mem s3) (rd + i * 16) 12 = strncpy (basename n) 12"
    using poke_bytes_read [OF p2] by (simp add: length_strncpy)
  have st: "rd32 s3 (rd + i * 16 + 12) = w32 ?h" using poke32_rd32 [OF p3] .
  have fa3: "file_at s3 ?h bs"
    by (rule file_at_frame [OF fa1 f23]) (use room low top N in \<open>auto simp add: footprint_def\<close>)
  have run: "pack_files w rd i (n # names) s = pack_files w rd (i + 1) names s3"
    using o p2 p3 by simp
  have fr: "frame (file_region ?L ?h \<union> {rd + i * 16 ..< rd + i * 16 + 16}) s s3"
    using frame_trans [OF f1 f23] .
  from run inv3 nm st fa3 fr show ?thesis by blast
qed

lemma pack_files_no_room:
  assumes inv: "free_inv N f s" and reg: "fs w n = Some (Regular bs caps)"
    and room: "f < blocks_of (length bs)"
  shows "isl (pack_files w rd i (n # names) s)"
proof -
  have op: "open_rdonly w n = Some (Stream bs caps)" using reg by (simp add: open_rdonly_def)
  have "oneFile w n s = Inl DiskFull"
  proof (cases f)
    case 0
    with inv op show ?thesis by (simp add: oneFile_full)
  next
    case (Suc f0)
    with oneFile_spec [OF _ op, of N f0 s] inv room show ?thesis
      by (simp add: blocks_of_def)
  qed
  then show ?thesis by simp
qed

lemma pack_files_no_entry:
  assumes inv: "free_inv N f s" and top: "lastAvail N + f < N" and rd: "rd = 512 * (N - 1) + 8"
    and i: "max_entries N \<le> i"
  shows "isl (pack_files w rd i (n # names) s)"
proof (cases "oneFile w n s")
  case (Inl e)
  then show ?thesis by simp
next
  case (Inr r)
  obtain x s1 where r: "r = (x, s1)" by (cases r)
  from inv have N: "3 \<le> N" "N < 2 ^ 22" and len: "mapLength s = 512 * N"
    by (simp_all add: free_inv_def)
  have "mapLength s1 = 512 * N"
  proof (cases "fs w n")
    case None
    then show ?thesis using Inr by (simp add: oneFile_missing open_rdonly_def)
  next
    case (Some nd)
    show ?thesis
    proof (cases nd)
      case Directory
      with Some have "isl (oneFile w n s)" by (simp add: oneFile_broken open_rdonly_def)
      with Inr show ?thesis by simp
    next
      case (Regular bs caps)
      with Some have op: "open_rdonly w n = Some (Stream bs caps)" by (simp add: open_rdonly_def)
      show ?thesis
      proof (cases f)
        case 0
        with inv op Inr show ?thesis by (simp add: oneFile_full)
      next
        case (Suc f0)
        with oneFile_spec [OF _ op, of N f0 s] inv Inr r len show ?thesis
          by (auto simp add: frame_def split: if_splits)
      qed
    qed
  qed
  moreover have "page_end (512 * N) < rd + i * 16 + 12"
    unfolding rd by (rule entry_no_fit) (use N i in simp_all)
  ultimately have "poke_bytes (rd + i * 16) (strncpy (basename n) 12) s1 = Inl Fault"
    by (simp add: poke_bytes_def length_strncpy map_end_def)
  then show ?thesis using Inr r by simp
qed

lemma blocks_needed_Cons:
  "blocks_needed w (n # names) = blocks_of (length (content_of w n)) + blocks_needed w names"
  by (simp add: blocks_needed_def)

lemma pack_files_spec:
  assumes "free_inv N f s" "lastAvail N + f < N" "rd = 512 * (N - 1) + 8"
  shows "if fits w N f i names
         then \<exists>s'. pack_files w rd i names s = Inr s' \<and>
                free_inv N (f - blocks_needed w names) s' \<and>
                packed s' w rd i (lastAvail N + f - 1) names \<and>
                frame (pack_region (lastAvail N) f rd i (length names)) s s'
         else isl (pack_files w rd i names s)"
  using assms(1,2)
proof (induction names arbitrary: f i s)
  case Nil
  then show ?case by (simp add: fits_def blocks_needed_def frame_refl)
next
  case (Cons n names)
  let ?L = "lastAvail N"
  note rd = assms(3)
  from Cons.prems have N: "3 \<le> N" "N < 2 ^ 22" by (simp_all add: free_inv_def)
  note L = lastAvail_bounds [OF N(1)]
  show ?case
  proof (cases "is_regular w n")
    case False
    then show ?thesis using pack_files_irregular [OF False] by (simp add: fits_def)
  next
    case True
    then obtain bs caps where reg: "fs w n = Some (Regular bs caps)"
      by (auto simp add: is_regular_def split: option.splits node.splits)
    then have c: "content_of w n = bs" by (simp add: content_of_def)
    let ?m = "more_blocks 8 (length bs)"
    show ?thesis
    proof (cases "f < blocks_of (length bs)")
      case True
      then have "\<not> fits w N f i (n # names)" by (simp add: fits_def blocks_needed_Cons c)
      then show ?thesis using pack_files_no_room [OF Cons.prems(1) reg True] by simp
    next
      case False
      then obtain f0 where f: "f = Suc f0" and room: "?m \<le> f0"
        by (cases f) (auto simp add: blocks_of_def)
      show ?thesis
      proof (cases "max_entries N \<le> i")
        case True
        then have "\<not> fits w N f i (n # names)" by (simp add: fits_def)
        then show ?thesis using pack_files_no_entry [OF Cons.prems rd True] by simp
      next
        case False
        then have i: "i < max_entries N" by simp
        from pack_files_step [OF Cons.prems(1) [unfolded f] Cons.prems(2) [unfolded f] rd reg room i]
        obtain s3 where run: "pack_files w rd i (n # names) s = pack_files w rd (i + 1) names s3"
          and inv3: "free_inv N (f0 - ?m) s3"
          and nm: "read_bytes (mem s3) (rd + i * 16) 12 = strncpy (basename n) 12"
          and st: "rd32 s3 (rd + i * 16 + 12) = w32 (?L + f0)"
          and fa3: "file_at s3 (?L + f0) bs"
          and fr3: "frame (file_region ?L (?L + f0) \<union> {rd + i * 16 ..< rd + i * 16 + 16}) s s3"
          by blast
        have top3: "?L + (f0 - ?m) < N" using Cons.prems(2) f by simp
        note ih = Cons.IH [OF inv3 top3, of "i + 1"]
        have fe: "fits w N f i (n # names) = fits w N (f0 - ?m) (i + 1) names"
          using f room i reg by (auto simp add: fits_def blocks_needed_Cons c blocks_of_def is_regular_def)
        show ?thesis
        proof (cases "fits w N (f0 - ?m) (i + 1) names")
          case False
          with ih run fe show ?thesis by simp
        next
          case True
          with ih obtain s' where r': "pack_files w rd (i + 1) names s3 = Inr s'"
            and inv': "free_inv N (f0 - ?m - blocks_needed w names) s'"
            and pk: "packed s' w rd (i + 1) (?L + (f0 - ?m) - 1) names"
            and fr': "frame (pack_region ?L (f0 - ?m) rd (i + 1) (length names)) s3 s'"
            by auto
          have low: "512 * (?L + f0 + 1) \<le> rd" "512 + 4 * N \<le> 512 * ?L" "?L + f0 < 2 ^ 22"
            "?L + f0 + 1 < N"
            using Cons.prems(2) f rd L N by simp_all
          have "read_bytes (mem s') (rd + i * 16) 12 = read_bytes (mem s3) (rd + i * 16) 12"
            by (rule frame_read_bytes [OF fr']) (use low room in \<open>auto simp add: pack_region_def\<close>)
          with nm have nm': "read_bytes (mem s') (rd + i * 16) 12 = strncpy (basename n) 12"
            by simp
          have "rd32 s' (rd + i * 16 + 12) = rd32 s3 (rd + i * 16 + 12)"
            by (rule frame_rd32 [OF fr']) (use low room in \<open>auto simp add: pack_region_def\<close>)
          with st have st': "rd32 s' (rd + i * 16 + 12) = w32 (?L + f0)" by simp
          have fa': "file_at s' (?L + f0) bs"
            by (rule file_at_frame [OF fa3 fr'])
              (use low room in \<open>auto simp add: pack_region_def footprint_def\<close>)
          have e1: "?L + f - 1 = ?L + f0" "?L + f0 - blocks_of (length bs) = ?L + (f0 - ?m) - 1"
            "f - blocks_needed w (n # names) = f0 - ?m - blocks_needed w names"
            using f room by (simp_all add: blocks_of_def blocks_needed_Cons c)
          have pk': "packed s' w rd i (?L + f - 1) (n # names)"
            unfolding e1(1) packed.simps c e1(2) using nm' st' fa' pk by simp
          have frt: "frame (pack_region ?L f rd i (length (n # names))) s s'"
            by (rule frame_mono [OF frame_trans [OF fr3 fr']])
              (use f room in \<open>auto simp add: pack_region_def file_region_def\<close>)
          have inv'': "free_inv N (f - blocks_needed w (n # names)) s'"
            unfolding e1(3) using inv' .
          from True fe run r' inv'' pk' frt show ?thesis by simp
        qed
      qed
    qed
  qed
qed

lemma build_root_spec:
  assumes inv: "free_inv N (N - lastAvail N) s" and nb: "rd32 s super_nBlocks = w32 N"
  shows "if fits w N (N - lastAvail N - 1) 0 names
         then \<exists>s'. build_root w names s = Inr s' \<and> root_post N w names s'
         else isl (build_root w names s)"
proof -
  let ?L = "lastAvail N"
  let ?f = "N - ?L - 1"
  let ?R = "N - 1"
  let ?rd = "512 * ?R + 8"
  from inv have N: "3 \<le> N" "N < 2 ^ 22" and len: "mapLength s = 512 * N"
    by (simp_all add: free_inv_def)
  note L = lastAvail_bounds [OF N(1)]
  have e: "N - ?L = Suc ?f" "?L + ?f = ?R" "?R < 2 ^ 22" "?L \<le> ?R" using L N by simp_all
  from getBlock_step [of N ?f s] inv e
  obtain s1 where g: "getBlock s = Inr (w32 ?R, s1)" and inv1: "free_inv N ?f s1"
    and f1: "frame ({8 ..< 12} \<union> {512 + 4 * ?R ..< 512 + 4 * ?R + 4}) s s1"
    by auto
  have len1: "mapLength s1 = 512 * N" using f1 len by (simp add: frame_def)
  obtain s2 where p2: "poke32 12 (w32 ?R) s1 = Inr s2"
    using poke32_ok [of 12 s1] len1 N by auto
  have f2: "frame {12 ..< 12 + 4} s1 s2" using poke32_frame [OF p2] .
  have len2: "mapLength s2 = 512 * N" using f2 len1 by (simp add: frame_def)
  have r2: "rd32 s2 12 = w32 ?R" using poke32_rd32 [OF p2] .
  have b: "512 * ?R + 8 \<le> 512 * N" using N by simp
  have "512 * ?R + 4 \<le> mapLength s2" using b len2 by simp
  then obtain s3 where p3: "poke32 (512 * ?R) 2 s2 = Inr s3"
    using poke32_ok by blast
  have f3: "frame {512 * ?R ..< 512 * ?R + 4} s2 s3" using poke32_frame [OF p3] .
  have len3: "mapLength s3 = 512 * N" using f3 len2 by (simp add: frame_def)
  have "512 * ?R + 4 + 4 \<le> mapLength s3" using b len3 by simp
  then obtain s4 where p4: "poke32 (512 * ?R + 4) (of_nat (length names * 16)) s3 = Inr s4"
    using poke32_ok by blast
  have f4: "frame {512 * ?R + 4 ..< 512 * ?R + 4 + 4} s3 s4" using poke32_frame [OF p4] .
  have len4: "mapLength s4 = 512 * N" using f4 len3 by (simp add: frame_def)
  have f24: "frame ({12 ..< 16} \<union> {512 * ?R ..< 512 * ?R + 8}) s1 s4"
    by (rule frame_mono [OF frame_trans [OF frame_trans [OF f2 f3] f4]]) auto
  have low: "512 + 4 * N \<le> 512 * ?L" "512 * ?L \<le> 512 * ?R" using L by simp_all
  have r3: "rd32 s3 12 = w32 ?R"
    using frame_rd32 [OF f3, of 12] r2 low N by simp
  have r4: "rd32 s4 12 = w32 ?R"
    using frame_rd32 [OF f4, of 12] r3 low N by simp
  have t4: "rd32 s4 (512 * ?R) = 2"
    using frame_rd32 [OF f4, of "512 * ?R"] poke32_rd32 [OF p3] by simp
  have n4: "rd32 s4 (512 * ?R + 4) = of_nat (length names * 16)"
    using poke32_rd32 [OF p4] .
  have "rd32 s1 4 = rd32 s 4"
    by (rule frame_rd32 [OF f1]) auto
  moreover have "rd32 s4 4 = rd32 s1 4"
    by (rule frame_rd32 [OF f24]) (use N in auto)
  ultimately have nb4: "rd32 s4 4 = w32 N"
    using nb by (simp add: super_nBlocks_def)
  have inv4: "free_inv N ?f s4"
    by (rule free_inv_frame [OF inv1 f24]) (use low e in auto)
  have top: "?L + ?f < N" using e N by simp
  have unf: "build_root w names s = pack_files w ?rd 0 names s4"
    using g p2 p3 p4 r2 r3 r4 len2 len3 len4 e N
    by (simp add: build_root_def super_root_def peek32_def toPtr_0 toPtr_8 in_map)
  note pf = pack_files_spec [OF inv4 top refl, of w 0 names]
  show ?thesis
  proof (cases "fits w N ?f 0 names")
    case False
    with pf unf show ?thesis by simp
  next
    case True
    with pf obtain s' where run: "pack_files w ?rd 0 names s4 = Inr s'"
      and inv': "free_inv N (?f - blocks_needed w names) s'"
      and pk: "packed s' w ?rd 0 (?L + ?f - 1) names"
      and fr: "frame (pack_region ?L ?f ?rd 0 (length names)) s4 s'"
      by auto
    have d: "{p ..< p + 4} \<inter> pack_region ?L ?f ?rd 0 (length names) = {}"
      if "p = 12 \<or> p = 4 \<or> p = 512 * ?R \<or> p = 512 * ?R + 4" for p
      using that low e by (auto simp add: pack_region_def)
    have "rd32 s' 12 = w32 ?R" "rd32 s' (512 * ?R) = 2"
      "rd32 s' (512 * ?R + 4) = of_nat (length names * 16)" "rd32 s' 4 = w32 N"
      using frame_rd32 [OF fr d] r4 t4 n4 nb4 by simp_all
    moreover have "?L + ?f - 1 = N - 2" using e by simp
    ultimately have "root_post N w names s'"
      using inv' pk by (simp add: root_post_def root_of_def super_root_def super_nBlocks_def)
    with True run unf show ?thesis by simp
  qed
qed

lemma pack_files_exhausted:
  assumes "avail_of s = 0" "super_avail + 4 \<le> mapLength s"
  shows "isl (pack_files w rd i (n # names) s)"
proof -
  have "getBlock s = Inl DiskFull" using assms by (simp add: getBlock_DiskFull_iff)
  then have "isl (oneFile w n s)"
    by (cases "open_rdonly w n") (simp_all add: oneFile_def)
  then show ?thesis by (cases "oneFile w n s") simp_all
qed

lemma lastAvail_of_small: "lastAvail_of 1 = 2" "lastAvail_of 2 = 2"
  by (simp_all add: lastAvail_of_def)

lemma small_image_1: "\<exists>s. init_super 1 (fresh 1) = Inr s \<and> avail_of s = 0 \<and> mapLength s = 512"
  by (simp add: init_super_def fresh_def mmap_def poke_bytes_def poke32_def peek32_def
      super_magic_def super_nBlocks_def super_avail_def length_le32 lastAvail_of_small
      fat_init.simps avail_of_def rd32_def read_bytes_4 write_bytes_def le32_def of_le32_def
      map_end_def page_end_def)

lemma small_image_2:
  "\<exists>s. init_super 2 (fresh 2) = Inr s \<and> avail_of s = 1 \<and> rd32 s 516 = 0 \<and> mapLength s = 1024"
  by (simp add: init_super_def fresh_def mmap_def poke_bytes_def poke32_def peek32_def
      super_magic_def super_nBlocks_def super_avail_def length_le32 lastAvail_of_small
      fat_init.simps avail_of_def rd32_def read_bytes_4 write_bytes_def le32_def of_le32_def
      map_end_def page_end_def)

lemma build_root_2:
  assumes av: "avail_of s = 1" and z: "rd32 s 516 = 0" and len: "mapLength s = 1024"
  shows "isl (build_root w (n # names) s)"
proof -
  have fe: "fat_entry 1 = 516" by (simp add: fat_entry_def)
  obtain s1 where p1: "poke32 8 0 s = Inr s1" using poke32_ok [of 8 s] len by auto
  have f1: "frame {8 ..< 8 + 4} s s1" using poke32_frame [OF p1] .
  have len1: "mapLength s1 = 1024" using f1 len by (simp add: frame_def)
  obtain s2 where p2: "poke32 516 0 s1 = Inr s2" using poke32_ok [of 516 s1] len1 by auto
  have f2: "frame {516 ..< 516 + 4} s1 s2" using poke32_frame [OF p2] .
  have len2: "mapLength s2 = 1024" using f2 len1 by (simp add: frame_def)
  have g: "getBlock s = Inr (1, s2)"
    using av z len p1 p2
    by (simp add: getBlock_def peek32_def avail_of_def super_avail_def fe in_map)
  have a2: "rd32 s2 8 = 0" using frame_rd32 [OF f2, of 8] poke32_rd32 [OF p1] by simp
  obtain s3 where p3: "poke32 12 1 s2 = Inr s3" using poke32_ok [of 12 s2] len2 by auto
  have f3: "frame {12 ..< 12 + 4} s2 s3" using poke32_frame [OF p3] .
  have len3: "mapLength s3 = 1024" using f3 len2 by (simp add: frame_def)
  have r3: "rd32 s3 12 = 1" using poke32_rd32 [OF p3] .
  have tp: "toPtr 1 0 = 512" by (simp add: toPtr_def)
  obtain s4 where p4: "poke32 512 2 s3 = Inr s4" using poke32_ok [of 512 s3] len3 by auto
  have f4: "frame {512 ..< 512 + 4} s3 s4" using poke32_frame [OF p4] .
  have len4: "mapLength s4 = 1024" using f4 len3 by (simp add: frame_def)
  obtain s5 where p5: "poke32 516 (of_nat (length (n # names) * 16)) s4 = Inr s5"
    using poke32_ok [of 516 s4] len4 by auto
  have f5: "frame {516 ..< 516 + 4} s4 s5" using poke32_frame [OF p5] .
  have len5: "mapLength s5 = 1024" using f5 len4 by (simp add: frame_def)
  have "rd32 s5 8 = rd32 s4 8" by (rule frame_rd32 [OF f5]) simp
  moreover have "rd32 s4 8 = rd32 s3 8" by (rule frame_rd32 [OF f4]) simp
  moreover have "rd32 s3 8 = rd32 s2 8" by (rule frame_rd32 [OF f3]) simp
  ultimately have a5: "avail_of s5 = 0" using a2 by (simp add: avail_of_def super_avail_def)
  have "build_root w (n # names) s =
      pack_files w (toPtr (rd32 s5 12) 8) 0 (n # names) s5"
    using g p3 p4 p5 r3 len3 len5 tp
    by (simp add: build_root_def super_root_def peek32_def in_map)
  then show ?thesis
    using pack_files_exhausted [OF a5, of w _ 0 n names] len5 by (simp add: super_avail_def)
qed

lemma build_root_1:
  assumes "avail_of s = 0" "mapLength s = 512"
  shows "isl (build_root w names s)"
proof -
  have "getBlock s = Inl DiskFull"
    using assms by (simp add: getBlock_DiskFull_iff super_avail_def)
  then show ?thesis by (simp add: build_root_def)
qed

lemma main_spec:
  assumes new: "fs w (argv ! 1) = None"
  shows "if (\<exists>N. runs argv w N)
         then \<exists>s. fst (main argv w) = Inr s \<and>
                root_post (nat (atoi (argv ! 2))) w (drop 3 argv) s
         else isl (fst (main argv w))"
proof (cases "length argv < 4")
  case True
  then show ?thesis by (simp add: main_def runs_def)
next
  case False
  then have args: "4 \<le> length argv" by simp
  define n where "n = atoi (argv ! 2)"
  define names where "names = drop 3 argv"
  have ne: "names \<noteq> []" using args by (simp add: names_def)
  have oc: "open_creat w (argv ! 1) = Some []" using new by (simp add: open_creat_def)
  show ?thesis
  proof (cases "0 < n \<and> n < 2 ^ 22")
    case False
    then consider (big) "2 ^ 31 \<le> n * 512" | (zero) "n = 0" | (low) "n * 512 < - (2 ^ 31)"
      | (neg) "- (2 ^ 31) \<le> n * 512" "n * 512 < 0"
      by fastforce
    then have "isl (fst (main argv w))"
    proof cases
      case big
      then show ?thesis using args oc by (simp add: main_def Let_def n_def [symmetric])
    next
      case zero
      then show ?thesis using args oc by (simp add: main_def Let_def n_def [symmetric])
    next
      case low
      then show ?thesis using args oc by (simp add: main_def Let_def n_def [symmetric])
    next
      case neg
      have "(n * 512) mod 2 ^ 32 = (n * 512 + 2 ^ 32) mod 2 ^ 32" by simp
      also have "\<dots> = n * 512 + 2 ^ 32" using neg by (intro mod_pos_pos_trivial) simp_all
      finally have "2 ^ 31 \<le> nat ((n * 512) mod 2 ^ 32)" using neg by simp
      then show ?thesis using args oc neg by (simp add: main_def Let_def n_def [symmetric])
    qed
    moreover have "\<not> (\<exists>N. runs argv w N)" using False by (auto simp add: runs_def n_def)
    ultimately show ?thesis by simp
  next
    case True
    define N where "N = nat n"
    have n: "n = int N" "0 < N" "N < 2 ^ 22" using True by (auto simp add: N_def)
    have lenN: "nat ((int N * 512) mod 2 ^ 32) = 512 * N"
    proof -
      have "int N * 512 < 2 ^ 32" using n by simp
      then have "(int N * 512) mod 2 ^ 32 = int N * 512" by simp
      then show ?thesis by (simp add: nat_mult_distrib)
    qed
    have unf: "fst (main argv w) =
        (case init_super (int N) (fresh N) of Inl e \<Rightarrow> Inl e
         | Inr s \<Rightarrow> build_root w names s)"
      using args oc n lenN
      by (simp add: main_def Let_def n_def [symmetric] names_def [symmetric] fresh_def
          split: sum.splits)
    show ?thesis
    proof (cases "3 \<le> N")
      case False
      then have "N = 1 \<or> N = 2" using n by auto
      then have "isl (fst (main argv w))"
      proof
        assume "N = 1"
        with small_image_1 build_root_1 [of _ w names] unf show ?thesis by auto
      next
        assume "N = 2"
        moreover obtain x xs where "names = x # xs" using ne by (cases names) auto
        ultimately show ?thesis using small_image_2 build_root_2 [of _ w x xs] unf by auto
      qed
      moreover have "\<not> (\<exists>N. runs argv w N)"
        using False n by (auto simp add: runs_def n_def [symmetric])
      ultimately show ?thesis by simp
    next
      case True
      from init_fresh [OF True n(3)]
      obtain s0 where i0: "init_super (int N) (fresh N) = Inr s0"
        and inv0: "free_inv N (N - lastAvail N) s0" and nb0: "rd32 s0 super_nBlocks = w32 N"
        by blast
      note br = build_root_spec [OF inv0 nb0, of w names]
      have r: "(\<exists>M. runs argv w M) = fits w N (N - lastAvail N - 1) 0 names"
        using args True n by (auto simp add: runs_def n_def [symmetric] names_def)
      show ?thesis
      proof (cases "fits w N (N - lastAvail N - 1) 0 names")
        case False
        with br have "isl (build_root w names s0)" by simp
        then have "isl (fst (main argv w))" using unf i0 by simp
        with r False show ?thesis by simp
      next
        case True
        with br obtain s' where "build_root w names s0 = Inr s'" "root_post N w names s'"
          by auto
        then have "fst (main argv w) = Inr s' \<and> root_post (nat (atoi (argv ! 2))) w (drop 3 argv) s'"
          using unf i0 n by (simp add: n_def [symmetric] names_def)
        with r True show ?thesis by auto
      qed
    qed
  qed
qed

lemma runs_unique: "runs argv w N \<Longrightarrow> N = nat (atoi (argv ! 2))"
  by (simp add: runs_def)

lemma main_success:
  assumes "fst (main argv w) = Inr s" "fs w (argv ! 1) = None"
  shows "runs argv w (nat (atoi (argv ! 2))) \<and> root_post (nat (atoi (argv ! 2))) w (drop 3 argv) s"
proof (cases "\<exists>N. runs argv w N")
  case True
  then obtain N where "runs argv w N" by blast
  then have "runs argv w (nat (atoi (argv ! 2)))" using runs_unique by blast
  with main_spec [OF assms(2)] True assms(1) show ?thesis by auto
next
  case False
  with main_spec [OF assms(2)] assms(1) show ?thesis by auto
qed

lemma main_total:
  assumes "runs argv w N" "fs w (argv ! 1) = None"
  shows "\<exists>s. fst (main argv w) = Inr s"
proof -
  have e: "\<exists>N. runs argv w N" using assms(1) by blast
  from main_spec [OF assms(2)] e
  have "\<exists>s. fst (main argv w) = Inr s \<and> root_post (nat (atoi (argv ! 2))) w (drop 3 argv) s"
    by (simp only: if_True)
  then show ?thesis by blast
qed

lemma packed_nth:
  "packed s w rd i a names \<Longrightarrow> j < length names \<Longrightarrow>
   read_bytes (mem s) (rd + (i + j) * 16) 12 = strncpy (basename (names ! j)) 12 \<and>
   rd32 s (rd + (i + j) * 16 + 12) = w32 (a - blocks_needed w (take j names)) \<and>
   file_at s (a - blocks_needed w (take j names)) (content_of w (names ! j))"
proof (induction names arbitrary: i a j)
  case Nil
  then show ?case by simp
next
  case (Cons n names)
  show ?case
  proof (cases j)
    case 0
    with Cons.prems show ?thesis by (simp add: blocks_needed_def)
  next
    case (Suc j')
    with Cons.prems have "packed s w rd (i + 1) (a - blocks_of (length (content_of w n))) names"
      and "j' < length names" by simp_all
    from Cons.IH [OF this] Suc show ?thesis
      by (simp add: blocks_needed_Cons add.commute diff_diff_left)
  qed
qed

lemma blocks_needed_take:
  "j < length names \<Longrightarrow>
   blocks_needed w (take j names) + blocks_of (length (content_of w (names ! j))) \<le> blocks_needed w names"
proof (induction names arbitrary: j)
  case Nil
  then show ?case by simp
next
  case (Cons n names)
  show ?case
  proof (cases j)
    case 0
    then show ?thesis by (simp add: blocks_needed_def)
  next
    case (Suc j')
    with Cons.prems have "j' < length names" by simp
    from Cons.IH [OF this] Suc show ?thesis by (simp add: blocks_needed_Cons)
  qed
qed

text \<open>What a successful run on a new image file leaves for its \<open>j\<close>-th input file.\<close>

lemma main_file:
  assumes run: "fst (main argv w) = Inr s" and new: "fs w (argv ! 1) = None"
    and j: "j < length argv - 3"
  defines "N \<equiv> nat (atoi (argv ! 2))"
  defines "names \<equiv> drop 3 argv"
  defines "h \<equiv> head_block N w names j"
  defines "bs \<equiv> content_of w (names ! j)"
  shows "3 \<le> N" "N < 2 ^ 22" "root_of s = w32 (N - 1)"
    "read_bytes (mem s) (512 * (N - 1) + 8 + j * 16) 12 = strncpy (basename (names ! j)) 12"
    "rd32 s (512 * (N - 1) + 8 + j * 16 + 12) = w32 h"
    "file_at s h bs"
    "lastAvail N + more_blocks 8 (length bs) \<le> h" "h < N - 1"
    "is_regular w (names ! j)"
proof -
  from main_success [OF run new] have r: "runs argv w N" and p: "root_post N w names s"
    by (simp_all add: N_def names_def)
  from r show N: "3 \<le> N" "N < 2 ^ 22" by (simp_all add: runs_def)
  note L = lastAvail_bounds [OF N(1)]
  from p show "root_of s = w32 (N - 1)" by (simp add: root_post_def)
  have jl: "j < length names" using j by (simp add: names_def)
  from p have pk: "packed s w (512 * (N - 1) + 8) 0 (N - 2) names" by (simp add: root_post_def)
  from packed_nth [OF pk jl]
  show "read_bytes (mem s) (512 * (N - 1) + 8 + j * 16) 12 = strncpy (basename (names ! j)) 12"
    and "rd32 s (512 * (N - 1) + 8 + j * 16 + 12) = w32 h"
    and "file_at s h bs"
    by (simp_all add: h_def head_block_def bs_def)
  from r have f: "blocks_needed w names \<le> N - lastAvail N - 1"
    and reg: "\<forall>n \<in> set names. is_regular w n"
    by (simp_all add: runs_def fits_def names_def)
  from blocks_needed_take [OF jl, of w] f
  have "blocks_needed w (take j names) + (1 + more_blocks 8 (length bs)) \<le> N - lastAvail N - 1"
    by (simp add: bs_def blocks_of_def)
  then show "lastAvail N + more_blocks 8 (length bs) \<le> h" "h < N - 1"
    using L by (simp_all add: h_def head_block_def)
  from reg jl show "is_regular w (names ! j)" by simp
qed

lemma file_at_chain:
  assumes fa: "file_at s h bs" and m: "0 < h - more_blocks 8 (length bs)" "h < 2 ^ 22"
    and k: "more_blocks 8 (length bs) < k"
  shows "chain k s (w32 h) = Some (map w32 (rev [h - more_blocks 8 (length bs) ..< h + 1]))"
proof -
  let ?m = "more_blocks 8 (length bs)"
  let ?l = "h - ?m"
  have e: "?l + ?m = h" using m by simp
  have fat: "fat_of s (w32 i) = (if i = ?l then 0 else w32 (i - 1))"
    if "?l \<le> i" "i < ?l + Suc ?m" for i
    using fa that e by (auto simp add: file_at_def)
  have "chain k s (w32 (?l + ?m)) = Some (map w32 (rev [?l ..< ?l + Suc ?m]))"
    by (rule chain_links [OF fat _ m(1) k]) (use e m in simp_all)
  then show ?thesis using e by simp
qed

lemma main_root:
  assumes run: "fst (main argv w) = Inr s" and new: "fs w (argv ! 1) = None"
  defines "N \<equiv> nat (atoi (argv ! 2))"
  shows "4 \<le> length argv" "atoi (argv ! 2) = int N" "3 \<le> N" "N < 2 ^ 22"
    "root_of s = w32 (N - 1)" "toPtr (root_of s) 0 = 512 * (N - 1)"
    "toPtr (root_of s) 8 = 512 * (N - 1) + 8"
    "rd32 s (512 * (N - 1)) = 2"
    "rd32 s (512 * (N - 1) + 4) = of_nat ((length argv - 3) * 16)"
    "rd32 s super_nBlocks = w32 N"
    "length argv - 3 \<le> max_entries N"
    "mapLength s = 512 * N"
proof -
  from main_success [OF run new] have r: "runs argv w N" and p: "root_post N w (drop 3 argv) s"
    by (simp_all add: N_def)
  from r show a: "4 \<le> length argv" "atoi (argv ! 2) = int N" "3 \<le> N" "N < 2 ^ 22"
    by (simp_all add: runs_def)
  from p show ro: "root_of s = w32 (N - 1)" by (simp add: root_post_def)
  have "N - 1 < 2 ^ 22" using a by simp
  then show "toPtr (root_of s) 0 = 512 * (N - 1)" "toPtr (root_of s) 8 = 512 * (N - 1) + 8"
    unfolding ro by (simp_all add: toPtr_0 toPtr_8)
  from p show "rd32 s (512 * (N - 1)) = 2"
    "rd32 s (512 * (N - 1) + 4) = of_nat ((length argv - 3) * 16)"
    "rd32 s super_nBlocks = w32 N"
    by (simp_all add: root_post_def)
  from r a show "length argv - 3 \<le> max_entries N" by (auto simp add: runs_def fits_def)
  from p show "mapLength s = 512 * N" by (simp add: root_post_def free_inv_def)
qed




lemma hd_allocations:
  assumes "3 \<le> N" "N < 2 ^ 22"
  shows "hd (fst (allocations N)) = w32 (N - 1)"
proof -
  note L = lastAvail_bounds [OF assms(1)]
  have "[lastAvail N ..< N] = [lastAvail N ..< N - 1] @ [N - 1]"
    using L by (metis Suc_diff_1 le_less_trans less_imp_le_nat upt_Suc_append zero_less_Suc
        less_Suc_eq_le not_less_eq)
  then have "rev [lastAvail N ..< N] = (N - 1) # rev [lastAvail N ..< N - 1]" by simp
  then show ?thesis using allocations_spec [OF assms] by simp
qed

lemma atoi_16: "atoi ''16'' = 16"
  by (simp add: atoi_def isspace_def isdigit_def)

lemma demo_runs: "runs demo_argv demo_world 16"
  by (simp add: runs_def demo_argv_def demo_world_def atoi_16 fits_def is_regular_def
      blocks_needed_def content_of_def blocks_of_def more_blocks_def lastAvail_def
      max_entries_def page_end_def)

lemma demo_new: "fs demo_world (demo_argv ! 1) = None"
  by (simp add: demo_argv_def demo_world_def)

lemma demo_success: "\<exists>s. fst (main demo_argv demo_world) = Inr s"
  by (rule main_total [OF demo_runs demo_new])



text \<open>The chain of the \<open>j\<close>-th file of a successful run, from the start block its directory
  entry names.\<close>

lemma main_chain:
  assumes run: "fst (main argv w) = Inr s" and new: "fs w (argv ! 1) = None"
    and j: "j < length argv - 3"
  defines "N \<equiv> nat (atoi (argv ! 2))"
  defines "h \<equiv> head_block N w (drop 3 argv) j"
  defines "m \<equiv> more_blocks 8 (length (content_of w (argv ! (3 + j))))"
  shows "entry_start s j = w32 h" "toPtr (entry_start s j) 0 = 512 * h"
    "chain N s (entry_start s j) = Some (map w32 (rev [h - m ..< h + 1]))"
    "file_at s h (content_of w (argv ! (3 + j)))" "m < h" "h < N" "N \<le> 2 ^ 22"
proof -
  note f = main_file [OF run new j, folded N_def]
  note r = main_root [OF run new, folded N_def]
  have nm: "drop 3 argv ! j = argv ! (3 + j)" using j by simp
  note L = lastAvail_bounds [OF r(3)]
  show es: "entry_start s j = w32 h"
    using f(5) r(7) by (simp add: entry_start_def entry_addr_def h_def)
  show fa: "file_at s h (content_of w (argv ! (3 + j)))" using f(6) by (simp add: h_def nm)
  have b: "lastAvail N + m \<le> h" "h < N - 1" using f(7,8) by (simp_all add: h_def m_def nm)
  then show "m < h" "h < N" using L by simp_all
  show "N \<le> 2 ^ 22" using r(4) by simp
  have h22: "h < 2 ^ 22" using b r(4) by simp
  then show "toPtr (entry_start s j) 0 = 512 * h" unfolding es by (simp add: toPtr_0)
  have "chain N s (w32 h) =
      Some (map w32 (rev [h - more_blocks 8 (length (content_of w (argv ! (3 + j)))) ..< h + 1]))"
    by (rule file_at_chain [OF fa _ h22]) (use b L in \<open>simp_all add: m_def\<close>)
  then show "chain N s (entry_start s j) = Some (map w32 (rev [h - m ..< h + 1]))"
    unfolding es m_def .
qed


lemma read_bytes_slots:
  assumes "\<And>i. i < n \<Longrightarrow> mem s (p + i) = bs ! i" "n \<le> length bs"
  shows "read_bytes (mem s) p n = take n bs"
  by (rule nth_equalityI) (use assms in \<open>simp_all add: read_bytes_def\<close>)

lemma read_chain_spec:
  assumes "\<And>i. i < length bs \<Longrightarrow> mem s (slot B off i) = bs ! i"
    and "\<And>j. B - more_blocks off (length bs) < j \<Longrightarrow> j \<le> B \<Longrightarrow> fat_of s (w32 j) = w32 (j - 1)"
    and "more_blocks off (length bs) < B" "B < 2 ^ 22" "off \<le> 512"
    and "more_blocks off (length bs) < k"
  shows "read_chain k s (w32 B) off (length bs) = Some bs"
  using assms
proof (induction k arbitrary: B off bs)
  case 0
  then show ?case by simp
next
  case (Suc k)
  let ?r = "length bs"
  let ?n = "512 - off"
  have tp: "toPtr (w32 B) (of_nat off) = 512 * B + off"
    using Suc.prems(4,5) toPtr_w32' [of B off] by (simp add: w32_def)
  have here: "mem s (512 * B + off + i) = bs ! i" if "i < ?r" "i < ?n" for i
    using Suc.prems(1) [OF that(1)] that(2) by (simp add: slot_here)
  show ?case
  proof (cases "?r \<le> ?n")
    case True
    have "read_bytes (mem s) (512 * B + off) ?r = take ?r bs"
      by (rule read_bytes_slots) (use here True in auto)
    then show ?thesis using True by (simp add: tp)
  next
    case False
    then have n: "?n \<le> ?r" "?n < ?r" by simp_all
    let ?bs' = "drop ?n bs"
    have on: "off + ?n = 512" using Suc.prems(5) by simp
    have mb: "more_blocks off ?r = Suc (more_blocks 0 (length ?bs'))"
      using more_blocks_read [of ?n off ?r] n on by (simp add: more_blocks_full)
    have B: "0 < B - 1" "B - 1 < 2 ^ 22" "B - 1 < B" using Suc.prems(3,4) mb by simp_all
    have "B - more_blocks off ?r < B" using Suc.prems(3) mb by simp
    then have nx: "fat_of s (w32 B) = w32 (B - 1)" using Suc.prems(2) [of B] by simp
    have nz: "w32 (B - 1) \<noteq> 0" using B by (simp add: w32_eq_0)
    have first: "read_bytes (mem s) (512 * B + off) ?n = take ?n bs"
      by (rule read_bytes_slots) (use here n in auto)
    have "read_chain k s (w32 (B - 1)) 0 (length ?bs') = Some ?bs'"
    proof (rule Suc.IH)
      fix i assume i: "i < length ?bs'"
      have "slot (B - 1) 0 i = slot B 512 i" by (simp add: slot_full)
      also have "\<dots> = slot B (off + ?n) (i + ?n - ?n)" using on by simp
      also have "\<dots> = slot B off (i + ?n)" by (rule slot_shift) simp_all
      finally have "mem s (slot (B - 1) 0 i) = bs ! (i + ?n)"
        using Suc.prems(1) [of "i + ?n"] i by simp
      then show "mem s (slot (B - 1) 0 i) = ?bs' ! i" using n by (simp add: add.commute)
    next
      fix j assume "B - 1 - more_blocks 0 (length ?bs') < j" "j \<le> B - 1"
      then have "B - more_blocks off ?r < j" "j \<le> B" using mb by simp_all
      then show "fat_of s (w32 j) = w32 (j - 1)" by (rule Suc.prems(2))
    next
      show "more_blocks 0 (length ?bs') < B - 1" using Suc.prems(3) mb by simp
      show "B - 1 < 2 ^ 22" using B by simp
      show "(0 :: nat) \<le> 512" by simp
      show "more_blocks 0 (length ?bs') < k" using Suc.prems(6) mb by simp
    qed
    then have "read_chain k s (w32 (B - 1)) 0 (?r - ?n) = Some ?bs'" by simp
    then show ?thesis using False nx nz first by (simp add: tp)
  qed
qed

lemma size_bound:
  assumes "more_blocks 8 r < 2 ^ 22"
  shows "r < 2 ^ 32"
proof -
  have "r - 504 < 512 * ((r - 504) div 512 + 1)"
    using dividend_less_times_div [of 512 "r - 504"] by simp
  then have "r < 512 * (more_blocks 8 r + 1)" by (auto simp add: more_blocks_def)
  also have "\<dots> \<le> 512 * 2 ^ 22" using assms by simp
  finally show ?thesis by simp
qed

lemma main_parse_file:
  assumes run: "fst (main argv w) = Inr s" and new: "fs w (argv ! 1) = None"
    and j: "j < length argv - 3"
  shows "parse_file (nat (atoi (argv ! 2))) s (entry_start s j) =
           Some (length (content_of w (argv ! (3 + j))), content_of w (argv ! (3 + j)))"
proof -
  let ?N = "nat (atoi (argv ! 2))"
  let ?bs = "content_of w (argv ! (3 + j))"
  let ?h = "head_block ?N w (drop 3 argv) j"
  note c = main_chain [OF run new j]
  have h22: "?h < 2 ^ 22" using c(6,7) by simp
  have "more_blocks 8 (length ?bs) < 2 ^ 22" using c(5) h22 by simp
  then have "length ?bs < 2 ^ 32" by (rule size_bound)
  then have un: "unat (w32 (length ?bs)) = length ?bs" by (rule unat_w32)
  from c(4) have tag: "rd32 s (512 * ?h) = 1" and ln: "rd32 s (512 * ?h + 4) = w32 (length ?bs)"
    and links: "\<And>i. ?h - more_blocks 8 (length ?bs) < i \<Longrightarrow> i \<le> ?h \<Longrightarrow>
                  fat_of s (w32 i) = w32 (i - 1)"
    and content: "\<And>i. i < length ?bs \<Longrightarrow> mem s (slot ?h 8 i) = ?bs ! i"
    by (simp_all add: file_at_def)
  have "read_chain ?N s (w32 ?h) 8 (length ?bs) = Some ?bs"
    by (rule read_chain_spec [OF content links c(5) h22]) (use c(5,6) in simp_all)
  then show ?thesis
    unfolding parse_file_def c(2) using tag ln un c(1) by simp
qed

lemma parse_roundtrip:
  assumes run: "fst (main argv w) = Inr s" and new: "fs w (argv ! 1) = None"
  shows "parse_image s =
           Some (map (\<lambda>n. (strncpy (basename n) 12, Some (length (content_of w n), content_of w n)))
                  (drop 3 argv))"
proof -
  let ?N = "nat (atoi (argv ! 2))"
  let ?names = "drop 3 argv"
  let ?n = "length argv - 3"
  let ?g = "\<lambda>n. (strncpy (basename n) 12, Some (length (content_of w n), content_of w n))"
  note r = main_root [OF run new]
  have tag: "rd32 s (toPtr (root_of s) 0) = 2" unfolding r(6) using r(8) .
  have e: "rd32 s (toPtr (root_of s) 0 + 4) = w32 (?n * 16)"
    unfolding r(6) w32_def using r(9) .
  have "?n \<le> 255" using r(11) max_entries_le [of "nat (atoi (argv ! 2))"] r(3) by simp
  then have "unat (w32 (?n * 16)) = ?n * 16" by (intro unat_w32) simp
  then have cnt: "unat (rd32 s (toPtr (root_of s) 0 + 4)) div 16 = ?n"
    unfolding e by simp
  have fuel: "unat (rd32 s super_nBlocks) = ?N" using r(10) r(4) by (simp add: unat_w32)
  have "map (\<lambda>j. (read_bytes (mem s) (entry_addr s j) 12, parse_file ?N s (entry_start s j)))
          [0 ..< ?n] = map (\<lambda>j. ?g (?names ! j)) [0 ..< ?n]"
  proof (rule map_cong [OF refl])
    fix j assume "j \<in> set [0 ..< ?n]"
    then have j: "j < ?n" by simp
    have nm: "?names ! j = argv ! (3 + j)" using j by simp
    have "read_bytes (mem s) (entry_addr s j) 12 = strncpy (basename (?names ! j)) 12"
      using main_file(4) [OF run new j] r(7) by (simp add: entry_addr_def)
    then show "(read_bytes (mem s) (entry_addr s j) 12, parse_file ?N s (entry_start s j)) =
        ?g (?names ! j)"
      using main_parse_file [OF run new j] nm by simp
  qed
  also have "\<dots> = map ?g (map (\<lambda>j. ?names ! j) [0 ..< length ?names])" by simp
  also have "\<dots> = map ?g ?names" by (simp only: map_nth)
  finally show ?thesis using tag cnt fuel by (simp add: parse_image_def)
qed

lemma atoi_8: "atoi ''8'' = 8"
  by (simp add: atoi_def isspace_def isdigit_def)

lemma blocks_of_formula: "blocks_of r = (if r < 504 then 1 else 2 + (r - 504) div 512)"
  by (simp add: blocks_of_def more_blocks_def)

text \<open>The number of blocks of a file's chain, for every file of a successful run.\<close>

lemma file_block_count:
  assumes "fst (main argv w) = Inr s" "fs w (argv ! 1) = None" "j < length argv - 3"
  shows "\<exists>xs. chain (nat (atoi (argv ! 2))) s (entry_start s j) = Some xs \<and>
           length xs = blocks_of (length (content_of w (argv ! (3 + j))))"
proof -
  note c = main_chain [OF assms]
  show ?thesis using c(3,5) by (simp add: blocks_of_def)
qed






















section \<open>The claims\<close>

text \<open>
  C1, at the boundary. A file of exactly 504 bytes fills the head block; the loop of
  \<^verbatim>\<open>oneFile\<close> then sees \<^verbatim>\<open>leftInBlock == 0\<close> and takes and links another block before \<^verbatim>\<open>read\<close>
  reports the end of the input. In an image of 8 blocks the file's chain is block 6
  followed by the empty block 5: two blocks, where C1 says one.
\<close>

theorem boundary_file_two_blocks:
  "\<exists>s. fst (main boundary_argv boundary_world) = Inr s \<and>
        chain 8 s (entry_start s 0) = Some [6, 5] \<and>
        unat (rd32 s (toPtr (entry_start s 0) 0 + 4)) = 504"
proof -
  have new: "fs boundary_world (boundary_argv ! 1) = None"
    by (simp add: boundary_argv_def boundary_world_def)
  have "runs boundary_argv boundary_world 8"
    by (simp add: runs_def boundary_argv_def boundary_world_def atoi_8 fits_def is_regular_def
        blocks_needed_def content_of_def blocks_of_def more_blocks_def lastAvail_def
        max_entries_def page_end_def)
  from main_total [OF this new] obtain s where s: "fst (main boundary_argv boundary_world) = Inr s"
    by blast
  have j: "0 < length boundary_argv - 3" by (simp add: boundary_argv_def)
  have h: "head_block 8 boundary_world (drop 3 boundary_argv) 0 = 6"
    by (simp add: head_block_def blocks_needed_def)
  have m: "more_blocks 8 (length (content_of boundary_world (boundary_argv ! (3 + 0)))) = 1"
    by (simp add: boundary_argv_def boundary_world_def content_of_def more_blocks_def)
  have n: "nat (atoi (boundary_argv ! 2)) = 8" by (simp add: boundary_argv_def atoi_8)
  have "rev [5 ..< 7] = [6, 5 :: nat]" by (simp add: upt_rec)
  then have "chain 8 s (entry_start s 0) = Some [6, 5]"
    using main_chain(3) [OF s new j] unfolding n h m by (simp add: w32_def)
  moreover have "unat (rd32 s (toPtr (entry_start s 0) 0 + 4)) = 504"
  proof -
    have c: "length (content_of boundary_world (boundary_argv ! (3 + 0))) = 504"
      by (simp add: boundary_argv_def boundary_world_def content_of_def)
    note f = main_chain(2,4) [OF s new j]
    from f(2) have "rd32 s (512 * head_block (nat (atoi (boundary_argv ! 2))) boundary_world
        (drop 3 boundary_argv) 0 + 4) = w32 504"
      unfolding file_at_def c by blast
    moreover have "unat (w32 504) = (504 :: nat)" by (rule unat_w32) simp
    ultimately show ?thesis unfolding f(1) by simp
  qed
  ultimately show ?thesis using s by blast
qed

text \<open>
  C2 (as amended). After the free list of a fresh image of \<open>N\<close> blocks is initialised
  (\<open>3 \<le> N\<close>, and \<open>N * 512\<close> fits an \<^verbatim>\<open>int\<close>), following \<^verbatim>\<open>fat\<close> from the initial
  \<^verbatim>\<open>avail = N - 1\<close> visits \<open>N - 1, N - 2, \<dots>, lastAvail\<close> and then reaches 0: every index
  of the closed interval from \<open>lastAvail\<close> to \<open>N - 1\<close> exactly once, in strictly
  decreasing order. Block \<open>lastAvail\<close> itself is on the chain.
\<close>

theorem free_chain_enumeration:
  assumes "3 \<le> N" "N < 2 ^ 22"
  shows "free_list N = Some (map w32 (rev [lastAvail N ..< N])) \<and>
         distinct (map w32 (rev [lastAvail N ..< N])) \<and>
         sorted_wrt (\<lambda>a b. b < a) (map w32 (rev [lastAvail N ..< N]))"
proof -
  have "distinct (map w32 (rev [lastAvail N ..< N]))"
    by (rule distinct_w32) (use assms in auto)
  moreover have "sorted_wrt (\<lambda>a b. b < a) (map w32 (rev [lastAvail N ..< N]))"
    by (rule sorted_w32_rev_upt) (use assms in simp)
  ultimately show ?thesis using free_list_spec [OF assms] by simp
qed

theorem free_chain_enumeration_witness:
  "(3 :: nat) \<le> 8 \<and> (8 :: nat) < 2 ^ 22 \<and>
   free_list 8 = Some (map w32 (rev [lastAvail 8 ..< 8])) \<and>
   distinct (map w32 (rev [lastAvail 8 ..< 8])) \<and>
   sorted_wrt (\<lambda>a b. b < a) (map w32 (rev [lastAvail 8 ..< 8]))"
  using free_chain_enumeration [of 8] by simp

text \<open>
  C2 as stated fails: on a fresh image of 8 blocks \<open>lastAvail\<close> is 2 and the chain from
  \<^verbatim>\<open>avail\<close> is 7, 6, 5, 4, 3, 2, so it is not the enumeration of the indices above
  \<open>lastAvail\<close> only.
\<close>

theorem free_chain_counterexample:
  "free_list 8 = Some [7, 6, 5, 4, 3, 2] \<and>
   free_list 8 \<noteq> Some (map w32 (rev [Suc (lastAvail 8) ..< 8]))"
proof -
  have a: "free_list 8 = Some [7, 6, 5, 4, 3, 2]"
    using free_list_spec [of 8] by (simp add: lastAvail_8 upt_2_8 w32_def)
  have l: "length (map w32 (rev [Suc (lastAvail 8) ..< 8])) = 5"
    by (simp add: lastAvail_8)
  have "map w32 (rev [Suc (lastAvail 8) ..< 8]) \<noteq> [7, 6, 5, 4, 3, 2]"
  proof
    assume "map w32 (rev [Suc (lastAvail 8) ..< 8]) = [7, 6, 5, 4, 3, 2]"
    then have "length (map w32 (rev [Suc (lastAvail 8) ..< 8])) = length [7, 6, 5, 4, 3, 2 :: u32]"
      by (rule arg_cong)
    with l show False by simp
  qed
  with a show ?thesis by simp
qed

text \<open>
  C3 (as amended). On a fresh image of \<open>N\<close> blocks (\<open>3 \<le> N\<close>, and \<open>N * 512\<close> fits an
  \<^verbatim>\<open>int\<close>) repeated calls of \<^verbatim>\<open>getBlock\<close> return \<open>N - 1, N - 2, \<dots>, lastAvail\<close>: no index
  twice, none below \<open>lastAvail\<close>, and \<open>N - lastAvail\<close> successful calls before the call
  that fails with \<open>DiskFull\<close>. In any image whose super block lies inside the mapping,
  \<^verbatim>\<open>getBlock\<close> fails with \<open>DiskFull\<close> exactly when \<^verbatim>\<open>avail\<close> is 0.
\<close>

theorem allocation_sequence:
  assumes "3 \<le> N" "N < 2 ^ 22"
  shows "allocations N = (map w32 (rev [lastAvail N ..< N]), Some DiskFull) \<and>
         distinct (fst (allocations N)) \<and>
         (\<forall>b \<in> set (fst (allocations N)). w32 (lastAvail N) \<le> b) \<and>
         length (fst (allocations N)) = N - lastAvail N \<and>
         (\<forall>s. super_avail + 4 \<le> mapLength s \<longrightarrow>
              (getBlock s = Inl DiskFull) = (avail_of s = 0))"
proof -
  note L = lastAvail_bounds [OF assms(1)]
  note a = allocations_spec [OF assms]
  have "distinct (map w32 (rev [lastAvail N ..< N]))"
    by (rule distinct_w32) (use assms in auto)
  moreover have "w32 (lastAvail N) \<le> b" if "b \<in> set (map w32 (rev [lastAvail N ..< N]))" for b
  proof -
    from that obtain i where "b = w32 i" "lastAvail N \<le> i" "i < N" by auto
    then show ?thesis using assms L by (simp add: w32_le)
  qed
  ultimately show ?thesis using a getBlock_DiskFull_iff by simp
qed

theorem allocation_sequence_witness:
  "(3 :: nat) \<le> 8 \<and> (8 :: nat) < 2 ^ 22 \<and>
   allocations 8 = (map w32 (rev [lastAvail 8 ..< 8]), Some DiskFull) \<and>
   length (fst (allocations 8)) = 8 - lastAvail 8"
  using allocation_sequence [of 8] by simp

text \<open>
  C3 as stated fails: on a fresh image of 8 blocks \<open>lastAvail\<close> is 2 and six calls of
  \<^verbatim>\<open>getBlock\<close> succeed (blocks 7 down to 2) before the disk is full, not
  \<open>8 - 1 - lastAvail = 5\<close>.
\<close>

theorem allocation_count_counterexample:
  "allocations 8 = ([7, 6, 5, 4, 3, 2], Some DiskFull) \<and>
   length (fst (allocations 8)) \<noteq> 8 - 1 - lastAvail 8"
  using allocations_spec [of 8] by (simp add: lastAvail_8 upt_2_8 w32_def)




text \<open>
  C5. The scenario: the only files are \<^verbatim>\<open>a.txt\<close>, of 10 bytes, and \<^verbatim>\<open>dir/big.data\<close>, of 600
  bytes, with any fixed content and any chunking of the reads, and the command is
  \<^verbatim>\<open>mkfs disk.img 16 a.txt dir/big.data\<close>. The run succeeds and leaves an image file of 16
  blocks; reading it back (the root block from \<^verbatim>\<open>super->root\<close>, then for each directory
  entry the header of its start block and the content along the chain in \<^verbatim>\<open>fat\<close>) yields
  the names \<^verbatim>\<open>a.txt\<close> and \<^verbatim>\<open>big.data\<close> (each filled up with NUL to 12 bytes), the lengths
  10 and 600 and the exact bytes of both files; the block \<^verbatim>\<open>super->root\<close> points to has
  tag 2.
\<close>

theorem end_to_end_scenario:
  assumes "length c1 = 10" "length c2 = 600"
  shows "\<exists>s. fst (main [''mkfs'', ''disk.img'', ''16'', ''a.txt'', ''dir/big.data'']
                 (scenario_world c1 k1 c2 k2)) = Inr s \<and>
           mapLength s = 16 * 512 \<and>
           parse_image s =
             Some [([97, 46, 116, 120, 116, 0, 0, 0, 0, 0, 0, 0], Some (10, c1)),
                   ([98, 105, 103, 46, 100, 97, 116, 97, 0, 0, 0, 0], Some (600, c2))] \<and>
           rd32 s (toPtr (root_of s) 0) = 2"
proof -
  let ?argv = "[''mkfs'', ''disk.img'', ''16'', ''a.txt'', ''dir/big.data'']"
  let ?w = "scenario_world c1 k1 c2 k2"
  have new: "fs ?w (?argv ! 1) = None" by (simp add: scenario_world_def)
  have "runs ?argv ?w 16"
    using assms
    by (simp add: runs_def atoi_16 fits_def is_regular_def blocks_needed_def content_of_def
        blocks_of_def more_blocks_def lastAvail_def max_entries_def page_end_def
        scenario_world_def)
  from main_total [OF this new] obtain s where s: "fst (main ?argv ?w) = Inr s" by blast
  note r = main_root [OF s new]
  have "rd32 s (toPtr (root_of s) 0) = 2" unfolding r(6) using r(8) .
  moreover have "mapLength s = 16 * 512" using r(12) by (simp add: atoi_16)
  moreover have z: "replicate 7 (0 :: byte) = [0, 0, 0, 0, 0, 0, 0]"
    "replicate 4 (0 :: byte) = [0, 0, 0, 0]"
    by (simp_all add: numeral_eq_Suc)
  have "strncpy (basename ''a.txt'') 12 = [97, 46, 116, 120, 116, 0, 0, 0, 0, 0, 0, 0]"
    "strncpy (basename ''dir/big.data'') 12 = [98, 105, 103, 46, 100, 97, 116, 97, 0, 0, 0, 0]"
    by (simp_all add: basename_def strncpy_def z)
  then have "parse_image s =
             Some [([97, 46, 116, 120, 116, 0, 0, 0, 0, 0, 0, 0], Some (10, c1)),
                   ([98, 105, 103, 46, 100, 97, 116, 97, 0, 0, 0, 0], Some (600, c2))]"
    using parse_roundtrip [OF s new] assms by (simp add: content_of_def scenario_world_def)
  ultimately show ?thesis using s by blast
qed

theorem end_to_end_scenario_witness:
  "\<exists>s. fst (main [''mkfs'', ''disk.img'', ''16'', ''a.txt'', ''dir/big.data'']
             (scenario_world (replicate 10 65) [] (replicate 600 66) [100, 1, 512])) = Inr s \<and>
        parse_image s =
          Some [([97, 46, 116, 120, 116, 0, 0, 0, 0, 0, 0, 0], Some (10, replicate 10 65)),
                ([98, 105, 103, 46, 100, 97, 116, 97, 0, 0, 0, 0], Some (600, replicate 600 66))] \<and>
        rd32 s (toPtr (root_of s) 0) = 2"
  using end_to_end_scenario [of "replicate 10 65" "replicate 600 66" "[]" "[100, 1, 512]"]
  by auto




text \<open>
  C7 (as amended). \<^verbatim>\<open>main\<close> fails with \<open>ArgumentError\<close> exactly when fewer than three
  arguments follow the program name (\<^verbatim>\<open>argc < 4\<close>: the image path, the block count or the
  first input file is missing), and then it has made no call on the image file. The block
  count is not validated as an argument: with \<^verbatim>\<open>argc \<ge> 4\<close> the run never ends in
  \<open>ArgumentError\<close> and its first step is to open the image file, whatever the block-count
  argument is. A run succeeds only when at least one file is given and the block count is
  a positive integer; with a count that is not positive it ends, after that first step, in
  one of the errors \<open>CreateError\<close> (the image file cannot be opened), \<open>Fault\<close> (the
  overflow of \<^verbatim>\<open>nBlocks * 512\<close>), \<open>ResizeError\<close> (\<^verbatim>\<open>ftruncate\<close>) or \<open>MapError\<close> (\<^verbatim>\<open>mmap\<close>).
\<close>

theorem argument_check:
  "(fst (main argv w) = Inl ArgumentError) = (length argv < 4) \<and>
   (length argv < 4 \<longrightarrow> snd (main argv w) = []) \<and>
   (4 \<le> length argv \<longrightarrow> snd (main argv w) \<noteq> [] \<and> hd (snd (main argv w)) = Open (argv ! 1)) \<and>
   (\<forall>s. fst (main argv w) = Inr s \<longrightarrow> 4 \<le> length argv \<and> 0 < atoi (argv ! 2)) \<and>
   (4 \<le> length argv \<and> atoi (argv ! 2) \<le> 0 \<longrightarrow>
      fst (main argv w) \<in> {Inl CreateError, Inl Fault, Inl ResizeError, Inl MapError})"
proof (cases "length argv < 4")
  case True
  then show ?thesis by (simp add: main_few_args)
next
  case False
  then have a: "4 \<le> length argv" by simp
  have "0 < atoi (argv ! 2)" if "fst (main argv w) = Inr s" for s
  proof (rule ccontr)
    assume "\<not> 0 < atoi (argv ! 2)"
    then have "atoi (argv ! 2) \<le> 0" by simp
    from main_nonpositive [OF a this, of w] that show False by auto
  qed
  moreover have "atoi (argv ! 2) \<le> 0 \<longrightarrow>
      fst (main argv w) \<in> {Inl CreateError, Inl Fault, Inl ResizeError, Inl MapError}"
    using main_nonpositive [OF a, of w] by blast
  ultimately show ?thesis using main_enough_args [OF a, of w] False a by simp
qed

theorem argument_check_witness:
  "fst (main [''mkfs'', ''disk.img'', ''16''] no_files) = Inl ArgumentError \<and>
   snd (main [''mkfs'', ''disk.img'', ''16''] no_files) = [] \<and>
   fst (main [''mkfs'', ''disk.img'', ''16'', ''a.txt''] no_files) \<noteq> Inl ArgumentError \<and>
   hd (snd (main [''mkfs'', ''disk.img'', ''16'', ''a.txt''] no_files)) = Open ''disk.img'' \<and>
   fst (main [''mkfs'', ''disk.img'', ''-1'', ''a.txt''] no_files) \<in>
     {Inl CreateError, Inl Fault, Inl ResizeError, Inl MapError} \<and>
   hd (snd (main [''mkfs'', ''disk.img'', ''-1'', ''a.txt''] no_files)) = Open ''disk.img''"
proof -
  have "atoi ''-1'' = - 1" by (simp add: atoi_def isspace_def isdigit_def)
  then show ?thesis
    using argument_check [of "[''mkfs'', ''disk.img'', ''16'']" no_files]
      argument_check [of "[''mkfs'', ''disk.img'', ''16'', ''a.txt'']" no_files]
      argument_check [of "[''mkfs'', ''disk.img'', ''-1'', ''a.txt'']" no_files]
    by simp
qed

text \<open>
  C7 as stated fails: the block count \<^verbatim>\<open>0\<close> is not a positive integer, yet the run does
  not end in \<open>ArgumentError\<close>; it opens (creates) the image file, truncates it to length 0
  and fails when mapping it.
\<close>

theorem argument_check_counterexample:
  "main [''mkfs'', ''disk.img'', ''0'', ''a.txt''] no_files =
     (Inl MapError, [Open ''disk.img'', Ftruncate 0, Mmap 0])"
  by (simp add: main_def atoi_def isspace_def isdigit_def no_files_def open_creat_def Let_def)




text \<open>
  C9 (as amended). In every successful run that creates its image file the root directory
  block is the first block handed out after the free list is initialised, and so
  \<^verbatim>\<open>super->root\<close> is \<^verbatim>\<open>nBlocks - 1\<close>, the last block of the image.
\<close>

theorem root_is_last_block:
  assumes "fst (main argv w) = Inr s" "fs w (argv ! 1) = None"
  shows "root_of s = of_int (atoi (argv ! 2) - 1) \<and>
         root_of s = hd (fst (allocations (nat (atoi (argv ! 2))))) \<and>
         toPtr (root_of s) 0 + 512 = mapLength s"
proof -
  note r = main_root [OF assms]
  have "(of_int (atoi (argv ! 2) - 1) :: u32) = w32 (nat (atoi (argv ! 2)) - 1)"
    using r(2,3) by (simp add: w32_def)
  moreover have "toPtr (root_of s) 0 + 512 = mapLength s"
    unfolding r(6) r(12) using r(3) by simp
  ultimately show ?thesis using r(5) hd_allocations [OF r(3,4)] by simp
qed

theorem root_is_last_block_witness:
  "\<exists>s. fst (main demo_argv demo_world) = Inr s \<and> root_of s = 15 \<and>
        toPtr (root_of s) 0 + 512 = mapLength s"
proof -
  from demo_success obtain s where s: "fst (main demo_argv demo_world) = Inr s" by blast
  from root_is_last_block [OF s demo_new]
  have "root_of s = of_int (atoi (demo_argv ! 2) - 1)" "toPtr (root_of s) 0 + 512 = mapLength s"
    by blast+
  then have "root_of s = 15" "toPtr (root_of s) 0 + 512 = mapLength s"
    by (simp_all add: demo_argv_def atoi_16)
  with s show ?thesis by blast
qed




end
